theory Spec2Isabelle
  imports Main
begin

text \<open>
  A model of \<^verbatim>\<open>app.py\<close>, the Drive audio link extractor: the classification of file
  names, the extraction of a folder identifier from a link, the paginated listing of a
  folder, the recursive walk that collects the rows, the CSV text of the rows and the
  run that ties them together. Every function of the source keeps its name. Calls into
  libraries (the regular expression engine, the Drive client, the CSV writer, the user
  interface) are modelled by what they do on the arguments the source passes.
\<close>

section \<open>Strings\<close>

text \<open>
  A string is a list of 8-bit characters, read as the UTF-8 bytes of the Python string.
  \<open>lower\<close> maps \<open>A\<close>..\<open>Z\<close> to \<open>a\<close>..\<open>z\<close> and leaves every other byte alone. All
  literals the source compares with are ASCII, and Python's own lowercasing yields none of
  the letters of the eight extensions from a character outside ASCII, so the suffix test
  below gives what Python's gives.
\<close>

definition char_lower :: "char \<Rightarrow> char" where
  "char_lower c =
     (let n = (of_char c :: nat) in if 65 \<le> n \<and> n \<le> 90 then char_of (n + 32) else c)"

definition lower :: "string \<Rightarrow> string" where
  "lower s = map char_lower s"

definition endswith :: "string \<Rightarrow> string \<Rightarrow> bool" where
  "endswith s suf =
     (length suf \<le> length s \<and> drop (length s - length suf) s = suf)"

definition AUDIO_EXTENSIONS :: "string set" where
  "AUDIO_EXTENSIONS =
     {''.mp3'', ''.wav'', ''.m4a'', ''.aac'', ''.flac'', ''.ogg'', ''.opus'', ''.wma''}"

definition is_audio_file :: "string \<Rightarrow> bool" where
  "is_audio_file name = (let name = lower name in \<exists>ext\<in>AUDIO_EXTENSIONS. endswith name ext)"

text \<open>
  \<^verbatim>\<open>AUDIO_EXTENSIONS\<close> is a Python set; \<^verbatim>\<open>any\<close> over it does not depend on an order.
\<close>

section \<open>Regular expressions\<close>

text \<open>
  The four patterns of \<^verbatim>\<open>extract_folder_id\<close> use literal characters, the anchors
  \<^verbatim>\<open>^\<close> and \<^verbatim>\<open>$\<close>, and one capturing group over the class \<^verbatim>\<open>[a-zA-Z0-9_-]\<close>,
  repeated at least once (\<^verbatim>\<open>+\<close>) or at least 25 times (\<^verbatim>\<open>{25,}\<close>). A pattern is a list of
  such atoms. \<open>match_atoms\<close> is the backtracking matcher at one position: a group takes
  the longest run first and gives characters back one at a time while the rest of the
  pattern fails. \<open>bos\<close> says whether the position is the beginning of the string.
  Without the MULTILINE flag, \<^verbatim>\<open>^\<close> matches only there, and \<^verbatim>\<open>$\<close> matches at the end
  of the string and just before a newline that ends the string. \<open>re_search\<close> tries the
  positions from left to right, as \<^verbatim>\<open>re.search\<close> does, and returns the first match.
\<close>

definition idchar :: "char \<Rightarrow> bool" where
  "idchar c =
     (let n = (of_char c :: nat)
      in (97 \<le> n \<and> n \<le> 122) \<or> (65 \<le> n \<and> n \<le> 90) \<or> (48 \<le> n \<and> n \<le> 57)
         \<or> c = CHR ''_'' \<or> c = CHR ''-'')"

datatype atom = Lit char | Bol | Eol | Group nat

type_synonym regex = "atom list"

datatype rmatch = Match (group1: "string option")

fun first_some :: "'a option list \<Rightarrow> 'a option" where
  "first_some [] = None"
| "first_some (None # xs) = first_some xs"
| "first_some (Some x # xs) = Some x"

fun match_atoms :: "regex \<Rightarrow> bool \<Rightarrow> string \<Rightarrow> string option \<Rightarrow> rmatch option" where
  "match_atoms [] bos s cap = Some (Match cap)"
| "match_atoms (Lit c # as) bos s cap =
     (case s of [] \<Rightarrow> None
      | x # xs \<Rightarrow> if x = c then match_atoms as False xs cap else None)"
| "match_atoms (Bol # as) bos s cap = (if bos then match_atoms as bos s cap else None)"
| "match_atoms (Eol # as) bos s cap =
     (if s = [] \<or> s = [CHR 0x0A] then match_atoms as bos s cap else None)"
| "match_atoms (Group n # as) bos s cap =
     first_some
       (map (\<lambda>k. match_atoms as (bos \<and> k = 0) (drop k s) (Some (take k s)))
            (rev [n ..< Suc (length (takeWhile idchar s))]))"

fun search_from :: "regex \<Rightarrow> bool \<Rightarrow> string \<Rightarrow> rmatch option" where
  "search_from r bos [] = match_atoms r bos [] None"
| "search_from r bos (c # cs) =
     (case match_atoms r bos (c # cs) None of
        Some m \<Rightarrow> Some m
      | None \<Rightarrow> search_from r False cs)"

definition re_search :: "regex \<Rightarrow> string \<Rightarrow> rmatch option" where
  "re_search r s = search_from r True s"

definition patterns :: "regex list" where
  "patterns =
     [map Lit ''/folders/'' @ [Group 1],
      map Lit ''/drive/folders/'' @ [Group 1],
      map Lit ''id='' @ [Group 1],
      [Bol, Group 25, Eol]]"

text \<open>
  The loop over the patterns. A match object is always truthy, so \<^verbatim>\<open>if m\<close> tests
  whether the pattern matched.
\<close>

fun extract_folder_id_from :: "regex list \<Rightarrow> string \<Rightarrow> string option" where
  "extract_folder_id_from [] url = None"
| "extract_folder_id_from (p # ps) url =
     (case re_search p url of
        Some m \<Rightarrow> group1 m
      | None \<Rightarrow> extract_folder_id_from ps url)"

definition extract_folder_id :: "string \<Rightarrow> string option" where
  "extract_folder_id url = extract_folder_id_from patterns url"

section \<open>The Drive service\<close>

text \<open>
  An item of a listing is a dictionary from field names to strings. The service is what
  \<^verbatim>\<open>service.files().list(...).execute()\<close> does: it takes the request and returns a
  response or raises. A response may lack either of its two fields.
\<close>

type_synonym item = "string \<rightharpoonup> string"

definition dict_get :: "('k \<rightharpoonup> string) \<Rightarrow> 'k \<Rightarrow> string \<Rightarrow> string" where
  "dict_get d k dflt = (case d k of None \<Rightarrow> dflt | Some v \<Rightarrow> v)"

record response =
  files :: "item list option"
  nextPageToken :: "string option"

record list_request =
  req_q :: string
  req_fields :: string
  req_supportsAllDrives :: bool
  req_includeItemsFromAllDrives :: bool
  req_corpora :: string
  req_pageToken :: "string option"
  req_pageSize :: nat

datatype error = HttpError string | StopException | CredentialsError string | CsvError string

type_synonym drive_service = "list_request \<Rightarrow> error + response"

definition files_list :: "string \<Rightarrow> string option \<Rightarrow> list_request" where
  "files_list folder_id page_token =
     \<lparr> req_q = [CHR 0x27] @ folder_id @ [CHR 0x27] @ '' in parents and trashed=false'',
       req_fields = ''nextPageToken, files(id,name,mimeType,createdTime,webViewLink)'',
       req_supportsAllDrives = True,
       req_includeItemsFromAllDrives = True,
       req_corpora = ''allDrives'',
       req_pageToken = page_token,
       req_pageSize = 1000 \<rparr>"

text \<open>
  Python's truth value of \<^verbatim>\<open>None\<close> or a string: only a non-empty string is true.
\<close>

definition truthy :: "string option \<Rightarrow> bool" where
  "truthy v = (case v of None \<Rightarrow> False | Some s \<Rightarrow> s \<noteq> [])"

definition files_or_empty :: "response \<Rightarrow> item list" where
  "files_or_empty resp = (case files resp of None \<Rightarrow> [] | Some fs \<Rightarrow> fs)"

text \<open>
  The \<^verbatim>\<open>while True\<close> loop of \<^verbatim>\<open>list_children\<close>. It need not end (a service may hand
  out tokens for ever), so the result is an option and \<open>None\<close> stands for a run that does
  not return. An error raised by a request ends the loop and is the result.
\<close>

partial_function (option) list_children_loop ::
  "drive_service \<Rightarrow> string \<Rightarrow> item list \<Rightarrow> string option \<Rightarrow> (error + item list) option" where
  "list_children_loop service folder_id all_items page_token =
     (case service (files_list folder_id page_token) of
        Inl e \<Rightarrow> Some (Inl e)
      | Inr resp \<Rightarrow>
          (if \<not> truthy (nextPageToken resp)
           then Some (Inr (all_items @ files_or_empty resp))
           else list_children_loop service folder_id
                  (all_items @ files_or_empty resp) (nextPageToken resp)))"

definition list_children :: "drive_service \<Rightarrow> string \<Rightarrow> (error + item list) option" where
  "list_children service folder_id = list_children_loop service folder_id [] None"

text \<open>
  A row is the list of seven strings the source builds. \<open>scan_items\<close> is the \<^verbatim>\<open>for\<close>
  loop of \<^verbatim>\<open>scan_folder_recursive\<close> over the listed items, with the recursive call as a
  parameter; \<open>scan_folder_recursive\<close> lists the folder and runs the loop. The recursion
  ends only when the folders reached form a finite tree, so it carries fuel, one unit per
  level of nesting; \<open>None\<close> stands for fuel that ran out or a listing that does not
  return. The interpreter's own bound on the depth of recursion is not part of the model.
\<close>

type_synonym row = "string list"

fun scan_items ::
  "(string \<Rightarrow> string \<Rightarrow> (error + row list) option) \<Rightarrow> string \<Rightarrow> item list \<Rightarrow> row list
     \<Rightarrow> (error + row list) option" where
  "scan_items recurse path [] results = Some (Inr results)"
| "scan_items recurse path (item # items) results =
     (let mime = dict_get item ''mimeType'' '''';
          name = dict_get item ''name'' '''';
          file_id = dict_get item ''id'' '''';
          created = dict_get item ''createdTime'' '''';
          webview = dict_get item ''webViewLink'' ''''
      in if mime = ''application/vnd.google-apps.folder'' then
           (let new_path = (if path \<noteq> [] then path @ ''/'' @ name else name)
            in case recurse file_id new_path of
                 None \<Rightarrow> None
               | Some (Inl e) \<Rightarrow> Some (Inl e)
               | Some (Inr rows) \<Rightarrow> scan_items recurse path items (results @ rows))
         else if is_audio_file name then
           (let share_link = ''https://drive.google.com/file/d/'' @ file_id @ ''/view?usp=sharing'';
                direct_link = ''https://drive.google.com/uc?id='' @ file_id
            in scan_items recurse path items
                 (results @ [[name, path, webview, share_link, direct_link, created, file_id]]))
         else scan_items recurse path items results)"

primrec scan_folder_recursive ::
  "nat \<Rightarrow> drive_service \<Rightarrow> string \<Rightarrow> string \<Rightarrow> (error + row list) option" where
  "scan_folder_recursive 0 service folder_id path = None"
| "scan_folder_recursive (Suc fuel) service folder_id path =
     (case list_children service folder_id of
        None \<Rightarrow> None
      | Some (Inl e) \<Rightarrow> Some (Inl e)
      | Some (Inr items) \<Rightarrow> scan_items (scan_folder_recursive fuel service) path items [])"

section \<open>CSV\<close>

text \<open>
  \<^verbatim>\<open>csv.writer\<close> with its default dialect: comma, double quote, doubled quotes inside
  quoted fields, line terminator CR LF, minimal quoting. A field is quoted when it holds
  the delimiter, the quote character or a character of the line terminator; a row that
  consists of one empty field is written as a pair of quotes. The buffer is a
  \<^verbatim>\<open>StringIO\<close>, which keeps what is written to it unchanged.
\<close>

definition delimiter :: char where "delimiter = CHR '',''"
definition quotechar :: char where "quotechar = CHR 0x22"
definition CR :: char where "CR = CHR 0x0D"
definition LF :: char where "LF = CHR 0x0A"
definition lineterminator :: string where "lineterminator = [CR, LF]"

definition special :: "char \<Rightarrow> bool" where
  "special c = (c = delimiter \<or> c = quotechar \<or> c \<in> set lineterminator)"

fun join_append_data :: "string \<Rightarrow> string" where
  "join_append_data [] = []"
| "join_append_data (c # cs) =
     (if c = quotechar then [quotechar, c] else [c]) @ join_append_data cs"

definition join_append :: "string \<Rightarrow> string" where
  "join_append f =
     (if \<exists>c \<in> set f. special c then [quotechar] @ join_append_data f @ [quotechar]
      else join_append_data f)"

fun join_fields :: "string list \<Rightarrow> string" where
  "join_fields [] = []"
| "join_fields [f] = join_append f"
| "join_fields (f # g # fs) = join_append f @ [delimiter] @ join_fields (g # fs)"

definition writerow :: "string list \<Rightarrow> string" where
  "writerow fs =
     (if fs = [[]] then [quotechar, quotechar] else join_fields fs) @ lineterminator"

definition writerows :: "string list list \<Rightarrow> string" where
  "writerows rows = concat (map writerow rows)"

text \<open>
  The reader that parses the text back is \<^verbatim>\<open>csv.reader\<close> with the same dialect, fed
  with the lines of the text (each line ends after a line feed). It is the state machine
  of the standard library: one step per character and one more step at the end of each
  line (the event \<open>None\<close>). The states for an escape character are left out, since the
  dialect has none, and so is the bound on the length of a field, which can be set at will.
\<close>

datatype parser_state =
  START_RECORD | START_FIELD | IN_FIELD | IN_QUOTED_FIELD | QUOTE_IN_QUOTED_FIELD | EAT_CRNL

record reader =
  rd_state :: parser_state
  rd_field :: string
  rd_fields :: "string list"

definition parse_reset :: reader where
  "parse_reset = \<lparr> rd_state = START_RECORD, rd_field = [], rd_fields = [] \<rparr>"

definition parse_save_field :: "reader \<Rightarrow> reader" where
  "parse_save_field rd = rd\<lparr> rd_fields := rd_fields rd @ [rd_field rd], rd_field := [] \<rparr>"

definition parse_add_char :: "reader \<Rightarrow> char \<Rightarrow> reader" where
  "parse_add_char rd c = rd\<lparr> rd_field := rd_field rd @ [c] \<rparr>"

definition start_field :: "reader \<Rightarrow> char option \<Rightarrow> reader" where
  "start_field rd ev =
     (case ev of
        None \<Rightarrow> (parse_save_field rd)\<lparr> rd_state := START_RECORD \<rparr>
      | Some c \<Rightarrow>
          if c = LF \<or> c = CR then (parse_save_field rd)\<lparr> rd_state := EAT_CRNL \<rparr>
          else if c = quotechar then rd\<lparr> rd_state := IN_QUOTED_FIELD \<rparr>
          else if c = delimiter then parse_save_field rd
          else (parse_add_char rd c)\<lparr> rd_state := IN_FIELD \<rparr>)"

definition parse_process_char :: "reader \<Rightarrow> char option \<Rightarrow> error + reader" where
  "parse_process_char rd ev =
     (case rd_state rd of
        START_RECORD \<Rightarrow>
          (case ev of
             None \<Rightarrow> Inr rd
           | Some c \<Rightarrow>
               if c = LF \<or> c = CR then Inr (rd\<lparr> rd_state := EAT_CRNL \<rparr>)
               else Inr (start_field (rd\<lparr> rd_state := START_FIELD \<rparr>) ev))
      | START_FIELD \<Rightarrow> Inr (start_field rd ev)
      | IN_FIELD \<Rightarrow>
          (case ev of
             None \<Rightarrow> Inr ((parse_save_field rd)\<lparr> rd_state := START_RECORD \<rparr>)
           | Some c \<Rightarrow>
               if c = LF \<or> c = CR then Inr ((parse_save_field rd)\<lparr> rd_state := EAT_CRNL \<rparr>)
               else if c = delimiter then Inr ((parse_save_field rd)\<lparr> rd_state := START_FIELD \<rparr>)
               else Inr (parse_add_char rd c))
      | IN_QUOTED_FIELD \<Rightarrow>
          (case ev of
             None \<Rightarrow> Inr rd
           | Some c \<Rightarrow>
               if c = quotechar then Inr (rd\<lparr> rd_state := QUOTE_IN_QUOTED_FIELD \<rparr>)
               else Inr (parse_add_char rd c))
      | QUOTE_IN_QUOTED_FIELD \<Rightarrow>
          (case ev of
             None \<Rightarrow> Inr ((parse_save_field rd)\<lparr> rd_state := START_RECORD \<rparr>)
           | Some c \<Rightarrow>
               if c = quotechar then Inr ((parse_add_char rd c)\<lparr> rd_state := IN_QUOTED_FIELD \<rparr>)
               else if c = delimiter then Inr ((parse_save_field rd)\<lparr> rd_state := START_FIELD \<rparr>)
               else if c = LF \<or> c = CR then Inr ((parse_save_field rd)\<lparr> rd_state := EAT_CRNL \<rparr>)
               else Inr ((parse_add_char rd c)\<lparr> rd_state := IN_FIELD \<rparr>))
      | EAT_CRNL \<Rightarrow>
          (case ev of
             None \<Rightarrow> Inr (rd\<lparr> rd_state := START_RECORD \<rparr>)
           | Some c \<Rightarrow>
               if c = LF \<or> c = CR then Inr rd
               else Inl (CsvError ''new-line character seen in unquoted field'')))"

fun process_line :: "reader \<Rightarrow> string \<Rightarrow> error + reader" where
  "process_line rd [] = parse_process_char rd None"
| "process_line rd (c # cs) =
     (case parse_process_char rd (Some c) of
        Inl e \<Rightarrow> Inl e
      | Inr rd' \<Rightarrow> process_line rd' cs)"

fun read_records :: "reader \<Rightarrow> string list \<Rightarrow> string list list \<Rightarrow> error + string list list" where
  "read_records rd [] acc =
     (if rd_field rd \<noteq> [] \<or> rd_state rd = IN_QUOTED_FIELD
      then Inr (acc @ [rd_fields (parse_save_field rd)])
      else Inr acc)"
| "read_records rd (line # lines) acc =
     (case process_line rd line of
        Inl e \<Rightarrow> Inl e
      | Inr rd' \<Rightarrow>
          if rd_state rd' = START_RECORD
          then read_records parse_reset lines (acc @ [rd_fields rd'])
          else read_records rd' lines acc)"

fun split_lines :: "string \<Rightarrow> string list" where
  "split_lines [] = []"
| "split_lines (c # cs) =
     (if c = LF then [c] # split_lines cs
      else (case split_lines cs of [] \<Rightarrow> [[c]] | l # ls \<Rightarrow> (c # l) # ls))"

definition csv_reader :: "string \<Rightarrow> error + string list list" where
  "csv_reader data = read_records parse_reset (split_lines data) []"

section \<open>The extraction\<close>

text \<open>
  The state a run works on: the text of the input field, the secrets, the library call
  that builds a client from the credentials, the client cached by
  \<^verbatim>\<open>st.cache_resource\<close>, and what the page shows, as the list of the elements emitted so
  far. \<^verbatim>\<open>st.stop()\<close> ends the script by an exception, as does every error of the service;
  \<open>run_extraction\<close> returns \<open>Inl\<close> of the exception then.
\<close>

function str_nat :: "nat \<Rightarrow> string" where
  "str_nat n =
     (if n < 10 then [char_of (48 + n)] else str_nat (n div 10) @ [char_of (48 + n mod 10)])"
  by pat_completeness auto
termination
  by (relation "measure (\<lambda>n. n)") auto

declare str_nat.simps [simp del]

datatype ui_event =
  StError string
| StSpinner string
| StSuccess string
| StWarning string
| StDownloadButton string string string string

record world =
  folder_url :: string
  secrets :: "string \<rightharpoonup> string"
  connect :: "string \<Rightarrow> string list \<Rightarrow> error + drive_service"
  cached_service :: "drive_service option"
  ui :: "ui_event list"

definition SCOPES :: "string list" where
  "SCOPES = [''https://www.googleapis.com/auth/drive.readonly'']"

definition get_drive_service :: "world \<Rightarrow> (error + drive_service) \<times> world" where
  "get_drive_service w =
     (case cached_service w of
        Some service \<Rightarrow> (Inr service, w)
      | None \<Rightarrow>
          (case secrets w ''gcp_service_account'' of
             None \<Rightarrow>
               (Inl StopException,
                w\<lparr> ui := ui w @ [StError ''Missing Streamlit secret: gcp_service_account''] \<rparr>)
           | Some info \<Rightarrow>
               (case connect w info SCOPES of
                  Inl e \<Rightarrow> (Inl e, w)
                | Inr service \<Rightarrow> (Inr service, w\<lparr> cached_service := Some service \<rparr>))))"

definition HEADER :: "string list" where
  "HEADER = [''File Name'', ''Folder Path'', ''View Link'', ''Share Link'',
             ''Direct Download Link'', ''Uploaded Date'', ''File ID'']"

definition csv_buffer :: "row list \<Rightarrow> string" where
  "csv_buffer results = writerow HEADER @ writerows results"

definition st_emit :: "ui_event \<Rightarrow> world \<Rightarrow> world" where
  "st_emit ev w = w\<lparr> ui := ui w @ [ev] \<rparr>"

definition run_extraction :: "nat \<Rightarrow> world \<Rightarrow> ((error + unit) \<times> world) option" where
  "run_extraction fuel w =
     (case extract_folder_id (folder_url w) of
        None \<Rightarrow> Some (Inr (), st_emit (StError ''Invalid folder URL / ID'') w)
      | Some folder_id \<Rightarrow>
          if folder_id = []
          then Some (Inr (), st_emit (StError ''Invalid folder URL / ID'') w)
          else
            (case get_drive_service w of
               (Inl e, w1) \<Rightarrow> Some (Inl e, w1)
             | (Inr service, w1) \<Rightarrow>
                 (let w2 = st_emit (StSpinner ''Scanning Drive folder recursively...'') w1
                  in case scan_folder_recursive fuel service folder_id [] of
                       None \<Rightarrow> None
                     | Some (Inl e) \<Rightarrow> Some (Inl e, w2)
                     | Some (Inr results) \<Rightarrow>
                         (let w3 = st_emit (StSuccess (''Done. Found '' @ str_nat (length results)
                                                       @ '' audio files.'')) w2
                          in if results = []
                             then Some (Inr (),
                                        st_emit (StWarning
                                                   (''No audio files found, or the folder isn''
                                                    @ [CHR 0x27]
                                                    @ ''t shared with the service account.'')) w3)
                             else Some (Inr (),
                                        st_emit (StDownloadButton ''Download CSV''
                                                   (csv_buffer results) ''audio_links.csv''
                                                   ''text/csv'') w3)))))"

section \<open>Notions of the specification\<close>

text \<open>
  A chain of pages: the service answers the first request with the first page, and each
  further page is its answer to the token of the page before. The last page is the one
  whose token is not true in Python's sense, which is where the loop stops.
\<close>

fun page_chain :: "drive_service \<Rightarrow> string \<Rightarrow> string option \<Rightarrow> response list \<Rightarrow> bool" where
  "page_chain service folder_id token [] = False"
| "page_chain service folder_id token (p # ps) =
     (service (files_list folder_id token) = Inr p \<and>
      (if ps = [] then \<not> truthy (nextPageToken p)
       else truthy (nextPageToken p) \<and> page_chain service folder_id (nextPageToken p) ps))"

text \<open>
  A finite folder tree, and what it means that the service serves it: every folder item
  has the folder MIME type and its listing returns the items of its children in order;
  every other item has another MIME type. A folder structure with a cycle has no such
  tree.
\<close>

datatype tree = File item | Folder item "tree list"

fun root_item :: "tree \<Rightarrow> item" where
  "root_item (File it) = it"
| "root_item (Folder it ts) = it"

definition is_folder :: "item \<Rightarrow> bool" where
  "is_folder it = (dict_get it ''mimeType'' '''' = ''application/vnd.google-apps.folder'')"

fun served :: "drive_service \<Rightarrow> tree \<Rightarrow> bool" where
  "served service (File it) = (\<not> is_folder it)"
| "served service (Folder it ts) =
     (is_folder it \<and>
      list_children service (dict_get it ''id'' '''') = Some (Inr (map root_item ts)) \<and>
      (\<forall>t \<in> set ts. served service t))"

definition served_root :: "drive_service \<Rightarrow> string \<Rightarrow> tree list \<Rightarrow> bool" where
  "served_root service folder_id ts =
     (list_children service folder_id = Some (Inr (map root_item ts)) \<and>
      (\<forall>t \<in> set ts. served service t))"

fun height :: "tree \<Rightarrow> nat" where
  "height (File it) = 0"
| "height (Folder it ts) = Suc (fold max (map height ts) 0)"

definition audio_row :: "string \<Rightarrow> item \<Rightarrow> row" where
  "audio_row path it =
     [dict_get it ''name'' '''',
      path,
      dict_get it ''webViewLink'' '''',
      ''https://drive.google.com/file/d/'' @ dict_get it ''id'' '''' @ ''/view?usp=sharing'',
      ''https://drive.google.com/uc?id='' @ dict_get it ''id'' '''',
      dict_get it ''createdTime'' '''',
      dict_get it ''id'' '''']"

text \<open>
  The rows the specification describes, with the path as the slash-joined concatenation
  of the folder names from the root (\<open>spec_rows\<close>), and the rows with the path built the
  way the walk builds it (\<open>walk_rows\<close>).
\<close>

fun slash_join :: "string list \<Rightarrow> string" where
  "slash_join [] = []"
| "slash_join [n] = n"
| "slash_join (n # m # ns) = n @ ''/'' @ slash_join (m # ns)"

fun spec_rows :: "string list \<Rightarrow> tree \<Rightarrow> row list" where
  "spec_rows names (File it) =
     (if is_audio_file (dict_get it ''name'' '''') then [audio_row (slash_join names) it] else [])"
| "spec_rows names (Folder it ts) =
     concat (map (spec_rows (names @ [dict_get it ''name'' ''''])) ts)"

fun walk_rows :: "string \<Rightarrow> tree \<Rightarrow> row list" where
  "walk_rows path (File it) =
     (if is_audio_file (dict_get it ''name'' '''') then [audio_row path it] else [])"
| "walk_rows path (Folder it ts) =
     concat (map (walk_rows (if path \<noteq> [] then path @ ''/'' @ dict_get it ''name'' ''''
                             else dict_get it ''name'' '''')) ts)"

fun folders_named :: "tree \<Rightarrow> bool" where
  "folders_named (File it) = True"
| "folders_named (Folder it ts) =
     (dict_get it ''name'' '''' \<noteq> [] \<and> (\<forall>t \<in> set ts. folders_named t))"

text \<open>
  Services for examples: a table from query and page token to response, and the service
  that serves a given tree with one page per folder.
\<close>

definition table_service :: "((string \<times> string option) \<times> response) list \<Rightarrow> drive_service" where
  "table_service tbl req =
     (case map_of tbl (req_q req, req_pageToken req) of
        None \<Rightarrow> Inl (HttpError ''notFound'')
      | Some resp \<Rightarrow> Inr resp)"

definition q_of :: "string \<Rightarrow> string" where
  "q_of folder_id = req_q (files_list folder_id None)"

definition mk_item :: "string \<Rightarrow> string \<Rightarrow> string \<Rightarrow> item" where
  "mk_item file_id name mime =
     map_of [(''id'', file_id), (''name'', name), (''mimeType'', mime),
             (''createdTime'', ''2024-01-01T00:00:00.000Z''),
             (''webViewLink'', ''https://drive.google.com/file/d/'' @ file_id @ ''/view'')]"

definition folder_mime :: string where
  "folder_mime = ''application/vnd.google-apps.folder''"

definition three_pages :: "response list" where
  "three_pages =
     [\<lparr> files = Some [mk_item ''a'' ''a.mp3'' ''audio/mpeg''], nextPageToken = Some ''t1'' \<rparr>,
      \<lparr> files = Some [mk_item ''b'' ''b.txt'' ''text/plain'', mk_item ''a'' ''a.mp3'' ''audio/mpeg''],
        nextPageToken = Some ''t2'' \<rparr>,
      \<lparr> files = None, nextPageToken = Some '''' \<rparr>]"

definition paged_service :: drive_service where
  "paged_service =
     table_service (zip [(q_of ''F'', None), (q_of ''F'', Some ''t1''), (q_of ''F'', Some ''t2'')]
                        three_pages)"

text \<open>
  What the patterns mean, stated without the matcher: a literal followed by a longest run
  of at least \<open>n\<close> identifier characters, found at the leftmost position where that is
  possible; and a whole string of at least 25 identifier characters, with or without a
  final newline.
\<close>

definition lit_group :: "string \<Rightarrow> nat \<Rightarrow> string \<Rightarrow> rmatch option" where
  "lit_group lit n s =
     (if take (length lit) s = lit \<and> n \<le> length (takeWhile idchar (drop (length lit) s))
      then Some (Match (Some (takeWhile idchar (drop (length lit) s))))
      else None)"

definition leftmost :: "(string \<Rightarrow> 'a option) \<Rightarrow> string \<Rightarrow> 'a option" where
  "leftmost f s = first_some (map (\<lambda>k. f (drop k s)) [0 ..< Suc (length s)])"

definition bare_id :: "string \<Rightarrow> rmatch option" where
  "bare_id s =
     (if 25 \<le> length (takeWhile idchar s) \<and>
         (dropWhile idchar s = [] \<or> dropWhile idchar s = [CHR 0x0A])
      then Some (Match (Some (takeWhile idchar s))) else None)"

definition folder_id_like :: "nat \<Rightarrow> string \<Rightarrow> bool" where
  "folder_id_like n g = (n \<le> length g \<and> (\<forall>c \<in> set g. idchar c))"

abbreviation RD :: "parser_state \<Rightarrow> string \<Rightarrow> string list \<Rightarrow> reader" where
  "RD st f fs \<equiv> \<lparr> rd_state = st, rd_field = f, rd_fields = fs \<rparr>"

definition after_field :: "string \<Rightarrow> string list \<Rightarrow> reader" where
  "after_field f fl =
     (if \<exists>c \<in> set f. special c then RD QUOTE_IN_QUOTED_FIELD f fl
      else if f = [] then RD START_FIELD [] fl
      else RD IN_FIELD f fl)"

fun is_download :: "ui_event \<Rightarrow> bool" where
  "is_download (StDownloadButton label data file_name mime) = True"
| "is_download ev = False"

definition new_events :: "world \<Rightarrow> world \<Rightarrow> ui_event list" where
  "new_events w w' = drop (length (ui w)) (ui w')"

fun folder_tables :: "tree \<Rightarrow> ((string \<times> string option) \<times> response) list" where
  "folder_tables (File it) = []"
| "folder_tables (Folder it ts) =
     ((q_of (dict_get it ''id'' ''''), None),
      \<lparr> files = Some (map root_item ts), nextPageToken = None \<rparr>)
     # concat (map folder_tables ts)"

definition tree_service :: "string \<Rightarrow> tree list \<Rightarrow> drive_service" where
  "tree_service root ts =
     table_service (((q_of root, None), \<lparr> files = Some (map root_item ts), nextPageToken = None \<rparr>)
                    # concat (map folder_tables ts))"

definition demo_tree :: "tree list" where
  "demo_tree =
     [File (mk_item ''f1'' ''song1.mp3'' ''audio/mpeg''),
      File (mk_item ''f2'' ''notes.txt'' ''text/plain''),
      Folder (mk_item ''A'' ''Albums'' folder_mime)
        [Folder (mk_item ''L'' ''Live'' folder_mime)
           [Folder (mk_item ''D'' ''Deep'' folder_mime)
              [File (mk_item ''f5'' ''deep.wav'' ''audio/wav''),
               File (mk_item ''f6'' ''readme.md'' ''text/markdown'')],
            File (mk_item ''f4'' ''b.ogg'' ''audio/ogg'')],
         File (mk_item ''f3'' ''Track.FLAC'' ''audio/flac'')]]"

definition demo_service :: drive_service where
  "demo_service = tree_service ''ROOT'' demo_tree"

definition unnamed_tree :: "tree list" where
  "unnamed_tree =
     [Folder (mk_item ''U'' '''' folder_mime)
        [Folder (mk_item ''B'' ''b'' folder_mime)
           [File (mk_item ''x'' ''x.mp3'' ''audio/mpeg'')]]]"

definition unnamed_service :: drive_service where
  "unnamed_service = tree_service ''ROOT'' unnamed_tree"

definition demo_world :: "string \<Rightarrow> drive_service \<Rightarrow> world" where
  "demo_world url service =
     \<lparr> folder_url = url,
       secrets = [''gcp_service_account'' \<mapsto> ''service-account-info''],
       connect = (\<lambda>info scopes. Inr service),
       cached_service = None,
       ui = [] \<rparr>"

definition demo_rows :: "row list" where
  "demo_rows =
     [[''song1.mp3'', '''', ''https://drive.google.com/file/d/f1/view'',
       ''https://drive.google.com/file/d/f1/view?usp=sharing'',
       ''https://drive.google.com/uc?id=f1'', ''2024-01-01T00:00:00.000Z'', ''f1''],
      [''deep.wav'', ''Albums/Live/Deep'', ''https://drive.google.com/file/d/f5/view'',
       ''https://drive.google.com/file/d/f5/view?usp=sharing'',
       ''https://drive.google.com/uc?id=f5'', ''2024-01-01T00:00:00.000Z'', ''f5''],
      [''b.ogg'', ''Albums/Live'', ''https://drive.google.com/file/d/f4/view'',
       ''https://drive.google.com/file/d/f4/view?usp=sharing'',
       ''https://drive.google.com/uc?id=f4'', ''2024-01-01T00:00:00.000Z'', ''f4''],
      [''Track.FLAC'', ''Albums'', ''https://drive.google.com/file/d/f3/view'',
       ''https://drive.google.com/file/d/f3/view?usp=sharing'',
       ''https://drive.google.com/uc?id=f3'', ''2024-01-01T00:00:00.000Z'', ''f3'']]"

definition empty_world :: world where
  "empty_world =
     demo_world ''https://drive.google.com/drive/folders/EMPTY'' (tree_service ''EMPTY'' [])"

definition demo_run_world :: world where
  "demo_run_world = demo_world ''https://drive.google.com/drive/folders/ROOT'' demo_service"

definition invalid_world :: world where
  "invalid_world =
     \<lparr> folder_url = ''not a drive link'',
       secrets = Map.empty,
       connect = (\<lambda>info scopes. Inl (CredentialsError ''unreachable'')),
       cached_service = None,
       ui = [] \<rparr>"

section \<open>Classification by extension\<close>

lemma endswith_iff: "endswith s suf \<longleftrightarrow> (\<exists>stem. s = stem @ suf)"
proof
  assume "endswith s suf"
  then have "s = take (length s - length suf) s @ suf"
    by (metis append_take_drop_id endswith_def)
  then show "\<exists>stem. s = stem @ suf" ..
next
  assume "\<exists>stem. s = stem @ suf"
  then show "endswith s suf" by (auto simp: endswith_def)
qed

lemma song_is_audio: "is_audio_file ''Song.MP3''"
  by code_simp

lemma notes_is_not_audio: "\<not> is_audio_file ''notes.txt''"
  by code_simp

text \<open>
  C4. A name is classified as audio exactly when its lowercased form ends with one of the
  eight extensions of the allow-list; \<open>Song.MP3\<close> is audio and \<open>notes.txt\<close> is not.
\<close>

theorem is_audio_file_iff_suffix:
  "(is_audio_file name \<longleftrightarrow>
      (\<exists>ext \<in> {''.mp3'', ''.wav'', ''.m4a'', ''.aac'', ''.flac'', ''.ogg'', ''.opus'', ''.wma''}.
         \<exists>stem. lower name = stem @ ext))
   \<and> is_audio_file ''Song.MP3'' \<and> \<not> is_audio_file ''notes.txt''"
  unfolding is_audio_file_def AUDIO_EXTENSIONS_def Let_def endswith_iff
  using song_is_audio notes_is_not_audio
  unfolding is_audio_file_def AUDIO_EXTENSIONS_def Let_def endswith_iff
  by blast

section \<open>The folder-ID patterns\<close>

lemma match_atoms_lits:
  "match_atoms (map Lit lit @ r) bos s cap =
     (if take (length lit) s = lit
      then match_atoms r (bos \<and> lit = []) (drop (length lit) s) cap
      else None)"
proof (induction lit arbitrary: bos s)
  case Nil
  then show ?case by simp
next
  case (Cons c lit)
  then show ?case by (cases s) auto
qed

lemma match_atoms_group_last:
  "match_atoms [Group n] bos s cap =
     (if n \<le> length (takeWhile idchar s) then Some (Match (Some (takeWhile idchar s))) else None)"
proof -
  have tk: "take (length (takeWhile idchar s)) s = takeWhile idchar s"
    by (induction s) auto
  show ?thesis by (simp add: tk)
qed

lemma match_atoms_lit_group:
  "match_atoms (map Lit lit @ [Group n]) bos s cap = lit_group lit n s"
  by (simp add: match_atoms_lits match_atoms_group_last lit_group_def del: match_atoms.simps)

lemma search_from_lit_group_None:
  "search_from (map Lit lit @ [Group n]) bos s = None \<longleftrightarrow>
   (\<forall>k \<le> length s. lit_group lit n (drop k s) = None)"
proof (induction s arbitrary: bos)
  case Nil
  then show ?case by (simp add: match_atoms_lit_group)
next
  case (Cons c s)
  have "(\<forall>k \<le> length (c # s). lit_group lit n (drop k (c # s)) = None) \<longleftrightarrow>
        lit_group lit n (c # s) = None \<and> (\<forall>k \<le> length s. lit_group lit n (drop k s) = None)"
    (is "?L \<longleftrightarrow> ?R")
  proof
    assume L: ?L
    have "lit_group lit n (drop 0 (c # s)) = None" using L by blast
    moreover have "\<forall>k \<le> length s. lit_group lit n (drop k s) = None"
    proof (intro allI impI)
      fix k assume "k \<le> length s"
      then have "lit_group lit n (drop (Suc k) (c # s)) = None" using L by auto
      then show "lit_group lit n (drop k s) = None" by simp
    qed
    ultimately show ?R by simp
  next
    assume R: ?R
    show ?L
    proof (intro allI impI)
      fix k assume "k \<le> length (c # s)"
      then show "lit_group lit n (drop k (c # s)) = None"
        using R by (cases k) auto
    qed
  qed
  then show ?case
    by (simp add: match_atoms_lit_group Cons.IH split: option.splits del: match_atoms.simps)
qed

lemma lit_group_suffix:
  assumes "lit_group (a @ b) n s = Some m"
  shows "lit_group b n (drop (length a) s) = Some m"
proof -
  from assms have tk: "take (length a + length b) s = a @ b"
    and n: "n \<le> length (takeWhile idchar (drop (length a + length b) s))"
    and m: "m = Match (Some (takeWhile idchar (drop (length a + length b) s)))"
    by (auto simp: lit_group_def split: if_splits)
  have "take (length b) (drop (length a) s) = drop (length a) (take (length a + length b) s)"
    by (simp add: drop_take)
  then have "take (length b) (drop (length a) s) = b"
    by (simp add: tk)
  then show ?thesis using n m by (simp add: lit_group_def add.commute)
qed

lemma lit_group_drive_folders:
  assumes "lit_group ''/drive/folders/'' n s = Some m"
  shows "lit_group ''/folders/'' n (drop 6 s) = Some m"
proof -
  have six: "length ''/drive'' = 6" by simp
  have "lit_group ''/folders/'' n (drop (length ''/drive'') s) = Some m"
    by (rule lit_group_suffix) (use assms in simp)
  then show ?thesis unfolding six .
qed

lemma lit_group_length: "lit_group lit n s = Some m \<Longrightarrow> length lit \<le> length s"
  by (auto simp: lit_group_def split: if_splits) (metis length_take min.cobounded1)

lemma drive_folders_redundant:
  assumes "re_search (map Lit ''/folders/'' @ [Group 1]) url = None"
  shows "re_search (map Lit ''/drive/folders/'' @ [Group 1]) url = None"
proof (rule ccontr)
  assume "re_search (map Lit ''/drive/folders/'' @ [Group 1]) url \<noteq> None"
  then obtain k where k: "k \<le> length url"
    and "lit_group ''/drive/folders/'' 1 (drop k url) \<noteq> None"
    unfolding re_search_def search_from_lit_group_None by blast
  then obtain m where m: "lit_group ''/drive/folders/'' 1 (drop k url) = Some m" by blast
  from lit_group_length [OF m] have "k + 6 \<le> length url" by simp
  moreover have "lit_group ''/folders/'' 1 (drop (k + 6) url) = Some m"
    using lit_group_drive_folders [OF m] by (simp add: add.commute)
  ultimately show False
    using assms unfolding re_search_def search_from_lit_group_None by fastforce
qed

lemma extract_without_second:
  "extract_folder_id url =
   extract_folder_id_from [patterns ! 0, patterns ! 2, patterns ! 3] url"
proof (cases "re_search (map Lit ''/folders/'' @ [Group 1]) url")
  case None
  from drive_folders_redundant [OF None] None show ?thesis
    by (simp add: extract_folder_id_def patterns_def)
next
  case (Some m)
  then show ?thesis by (simp add: extract_folder_id_def patterns_def)
qed

lemma extract_from_first:
  "i < length ps \<Longrightarrow> re_search (ps ! i) url = Some m \<Longrightarrow>
   \<forall>j<i. re_search (ps ! j) url = None \<Longrightarrow>
   extract_folder_id_from ps url = group1 m"
proof (induction ps arbitrary: i)
  case Nil
  then show ?case by simp
next
  case (Cons p ps)
  show ?case
  proof (cases i)
    case 0
    with Cons.prems show ?thesis by simp
  next
    case (Suc k)
    with Cons.prems have "re_search p url = None" by auto
    moreover have "extract_folder_id_from ps url = group1 m"
    proof (rule Cons.IH)
      show "k < length ps" using Cons.prems Suc by simp
      show "re_search (ps ! k) url = Some m" using Cons.prems Suc by simp
      show "\<forall>j<k. re_search (ps ! j) url = None"
        using Cons.prems(3) Suc by auto
    qed
    ultimately show ?thesis by simp
  qed
qed

lemma extract_from_none:
  "\<forall>i<length ps. re_search (ps ! i) url = None \<Longrightarrow> extract_folder_id_from ps url = None"
proof (induction ps)
  case Nil
  then show ?case by simp
next
  case (Cons p ps)
  from Cons.prems have "re_search p url = None" by auto
  moreover have "\<forall>i<length ps. re_search (ps ! i) url = None"
    using Cons.prems by auto
  ultimately show ?case using Cons.IH by simp
qed

lemma first_some_all_None: "(\<And>x. x \<in> set xs \<Longrightarrow> f x = None) \<Longrightarrow> first_some (map f xs) = None"
  by (induction xs) simp_all

lemma not_idchar_LF: "\<not> idchar (CHR 0x0A)"
  by (simp add: idchar_def)

lemma drop_in_run:
  assumes "k < length (takeWhile idchar s)"
  shows "drop k s \<noteq> [] \<and> drop k s \<noteq> [CHR 0x0A]"
proof -
  have len: "length (takeWhile idchar s) \<le> length s" by (rule length_takeWhile_le)
  with assms have k: "k < length s" by simp
  have "s ! k = takeWhile idchar s ! k" using assms by (simp add: takeWhile_nth)
  moreover have "takeWhile idchar s ! k \<in> set (takeWhile idchar s)" using assms by simp
  ultimately have "idchar (s ! k)" by (metis set_takeWhileD)
  moreover have "drop k s = s ! k # drop (Suc k) s" using k by (simp add: Cons_nth_drop_Suc)
  ultimately show ?thesis using not_idchar_LF by auto
qed

lemma take_run: "take (length (takeWhile P s)) s = takeWhile P s"
  by (induction s) auto

lemma drop_run: "drop (length (takeWhile P s)) s = dropWhile P s"
  by (induction s) auto

lemma match_atoms_group_eol:
  "match_atoms [Group n, Eol] bos s cap =
     (if n \<le> length (takeWhile idchar s) \<and>
         (dropWhile idchar s = [] \<or> dropWhile idchar s = [CHR 0x0A])
      then Some (Match (Some (takeWhile idchar s))) else None)"
proof (cases "n \<le> length (takeWhile idchar s)")
  case False
  then show ?thesis by simp
next
  case True
  let ?L = "length (takeWhile idchar s)"
  let ?f = "\<lambda>k. match_atoms [Eol] (bos \<and> k = 0) (drop k s) (Some (take k s))"
  have rest: "first_some (map ?f (rev [n..<?L])) = None"
  proof (rule first_some_all_None)
    fix k assume "k \<in> set (rev [n..<?L])"
    then have "k < ?L" by simp
    from drop_in_run [OF this] show "?f k = None" by simp
  qed
  have "match_atoms [Group n, Eol] bos s cap = first_some (map ?f (?L # rev [n..<?L]))"
    using True by simp
  also have "\<dots> = (case ?f ?L of None \<Rightarrow> None | Some m \<Rightarrow> Some m)"
    using rest by (cases "?f ?L") (simp_all del: match_atoms.simps)
  also have "\<dots> = (if dropWhile idchar s = [] \<or> dropWhile idchar s = [CHR 0x0A]
                    then Some (Match (Some (takeWhile idchar s))) else None)"
    by (simp add: take_run drop_run)
  finally show ?thesis using True by simp
qed

lemma search_from_anchored_False: "search_from (Bol # r) False s = None"
  by (induction s) simp_all

lemma re_search_bare_id: "re_search [Bol, Group 25, Eol] url = bare_id url"
proof -
  have m: "\<And>u. match_atoms [Bol, Group 25, Eol] True u None = bare_id u"
    using match_atoms_group_eol [of 25 True _ None] by (simp add: bare_id_def)
  show ?thesis
    unfolding re_search_def
    by (cases url) (simp_all add: m search_from_anchored_False split: option.splits
        del: match_atoms.simps)
qed

lemma search_from_lit_group_Some:
  "search_from (map Lit lit @ [Group n]) bos s = Some m \<Longrightarrow>
   \<exists>k \<le> length s. lit_group lit n (drop k s) = Some m"
proof (induction s arbitrary: bos)
  case Nil
  then show ?case by (simp add: match_atoms_lit_group)
next
  case (Cons c s)
  show ?case
  proof (cases "lit_group lit n (c # s)")
    case None
    with Cons.prems have "search_from (map Lit lit @ [Group n]) False s = Some m"
      by (simp add: match_atoms_lit_group del: match_atoms.simps)
    from Cons.IH [OF this] obtain k where "k \<le> length s" "lit_group lit n (drop k s) = Some m"
      by blast
    then have "Suc k \<le> length (c # s) \<and> lit_group lit n (drop (Suc k) (c # s)) = Some m"
      by simp
    then show ?thesis by blast
  next
    case (Some m')
    with Cons.prems have "m' = m"
      by (simp add: match_atoms_lit_group del: match_atoms.simps)
    with Some have "0 \<le> length (c # s) \<and> lit_group lit n (drop 0 (c # s)) = Some m" by simp
    then show ?thesis by blast
  qed
qed

lemma lit_group_like: "lit_group lit n s = Some m \<Longrightarrow> \<exists>g. m = Match (Some g) \<and> folder_id_like n g"
  by (auto simp: lit_group_def folder_id_like_def split: if_splits dest: set_takeWhileD)

lemma bare_id_like: "bare_id s = Some m \<Longrightarrow> \<exists>g. m = Match (Some g) \<and> folder_id_like 25 g"
  by (auto simp: bare_id_def folder_id_like_def split: if_splits dest: set_takeWhileD)

lemma re_search_patterns_like:
  assumes "i < length patterns" and "re_search (patterns ! i) url = Some m"
  shows "\<exists>g. m = Match (Some g) \<and> folder_id_like 1 g"
proof -
  from assms(1) consider "i = 0" | "i = 1" | "i = 2" | "i = 3"
    by (auto simp: patterns_def less_Suc_eq numeral_eq_Suc)
  then show ?thesis
  proof cases
    case 1
    with assms(2) have "search_from (map Lit ''/folders/'' @ [Group 1]) True url = Some m"
      by (simp add: patterns_def re_search_def)
    from search_from_lit_group_Some [OF this] show ?thesis using lit_group_like by blast
  next
    case 2
    with assms(2) have "search_from (map Lit ''/drive/folders/'' @ [Group 1]) True url = Some m"
      by (simp add: patterns_def re_search_def)
    from search_from_lit_group_Some [OF this] show ?thesis using lit_group_like by blast
  next
    case 3
    with assms(2) have "search_from (map Lit ''id='' @ [Group 1]) True url = Some m"
      by (simp add: patterns_def re_search_def)
    from search_from_lit_group_Some [OF this] show ?thesis using lit_group_like by blast
  next
    case 4
    with assms(2) have "bare_id url = Some m"
      by (simp add: patterns_def re_search_bare_id)
    from bare_id_like [OF this] show ?thesis by (auto simp: folder_id_like_def)
  qed
qed

lemma extract_from_Some:
  "extract_folder_id_from ps url = Some g \<Longrightarrow>
   \<exists>i<length ps. re_search (ps ! i) url = Some (Match (Some g))"
proof (induction ps)
  case Nil
  then show ?case by simp
next
  case (Cons p ps)
  show ?case
  proof (cases "re_search p url")
    case None
    with Cons.prems have "extract_folder_id_from ps url = Some g" by simp
    from Cons.IH [OF this] obtain i where "i < length ps" "re_search (ps ! i) url = Some (Match (Some g))"
      by blast
    then have "Suc i < length (p # ps) \<and> re_search ((p # ps) ! Suc i) url = Some (Match (Some g))"
      by simp
    then show ?thesis by blast
  next
    case (Some m)
    with Cons.prems have "m = Match (Some g)" by (cases m) simp
    with Some have "0 < length (p # ps) \<and> re_search ((p # ps) ! 0) url = Some (Match (Some g))"
      by simp
    then show ?thesis by blast
  qed
qed

lemma extract_folder_id_like: "extract_folder_id url = Some g \<Longrightarrow> folder_id_like 1 g"
proof -
  assume "extract_folder_id url = Some g"
  then obtain i where "i < length patterns" "re_search (patterns ! i) url = Some (Match (Some g))"
    unfolding extract_folder_id_def using extract_from_Some by blast
  from re_search_patterns_like [OF this] show ?thesis by simp
qed

lemma extract_folder_id_truthy: "extract_folder_id url = Some g \<Longrightarrow> g \<noteq> []"
  using extract_folder_id_like [of url g] by (auto simp: folder_id_like_def)

lemma extract_from_None_iff:
  "extract_folder_id url = None \<longleftrightarrow> (\<forall>i<length patterns. re_search (patterns ! i) url = None)"
proof
  assume none: "extract_folder_id url = None"
  show "\<forall>i<length patterns. re_search (patterns ! i) url = None"
  proof (rule ccontr)
    assume "\<not> (\<forall>i<length patterns. re_search (patterns ! i) url = None)"
    then have ex: "\<exists>i. i < length patterns \<and> re_search (patterns ! i) url \<noteq> None" by blast
    define i where "i = (LEAST i. i < length patterns \<and> re_search (patterns ! i) url \<noteq> None)"
    have i: "i < length patterns \<and> re_search (patterns ! i) url \<noteq> None"
      unfolding i_def using ex by (rule LeastI_ex)
    have least: "\<forall>j<i. re_search (patterns ! j) url = None"
    proof (intro allI impI)
      fix j assume j: "j < i"
      then have "\<not> (j < length patterns \<and> re_search (patterns ! j) url \<noteq> None)"
        unfolding i_def by (rule not_less_Least)
      with j i show "re_search (patterns ! j) url = None" by simp
    qed
    from i obtain m where m: "re_search (patterns ! i) url = Some m" by blast
    from re_search_patterns_like [OF _ m] i obtain g where g: "m = Match (Some g)" by blast
    have "extract_folder_id url = group1 m"
      unfolding extract_folder_id_def using i m least extract_from_first [of i patterns url m]
      by blast
    with g none show False by simp
  qed
next
  assume "\<forall>i<length patterns. re_search (patterns ! i) url = None"
  then show "extract_folder_id url = None"
    unfolding extract_folder_id_def by (rule extract_from_none)
qed

lemma search_examples:
  "re_search (patterns ! 0) ''https://drive.google.com/drive/folders/1AbC_d-9?usp=sharing''
     = Some (Match (Some ''1AbC_d-9''))"
  "re_search (patterns ! 0) ''https://drive.google.com/open?id=1AbC'' = None"
  "re_search (patterns ! 1) ''https://drive.google.com/open?id=1AbC'' = None"
  "re_search (patterns ! 2) ''https://drive.google.com/open?id=1AbC'' = Some (Match (Some ''1AbC''))"
  "re_search (patterns ! 0) ''not a drive link'' = None"
  "re_search (patterns ! 1) ''not a drive link'' = None"
  "re_search (patterns ! 2) ''not a drive link'' = None"
  "re_search (patterns ! 3) ''not a drive link'' = None"
  by code_simp+

lemma bare_example:
  "re_search (patterns ! 0) ''1a2B3c4D5e6F7g8H9i0J_k-LmN'' = None"
  "re_search (patterns ! 1) ''1a2B3c4D5e6F7g8H9i0J_k-LmN'' = None"
  "re_search (patterns ! 2) ''1a2B3c4D5e6F7g8H9i0J_k-LmN'' = None"
  "re_search (patterns ! 3) ''1a2B3c4D5e6F7g8H9i0J_k-LmN''
     = Some (Match (Some ''1a2B3c4D5e6F7g8H9i0J_k-LmN''))"
  by code_simp+

lemma patterns_nth:
  "patterns ! 0 = map Lit ''/folders/'' @ [Group 1]"
  "patterns ! 1 = map Lit ''/drive/folders/'' @ [Group 1]"
  "patterns ! 2 = map Lit ''id='' @ [Group 1]"
  "patterns ! 3 = [Bol, Group 25, Eol]"
  by (simp_all add: patterns_def)

lemma leftmost_Nil: "leftmost f [] = f []"
  by (cases "f []") (simp_all add: leftmost_def)

lemma leftmost_Cons:
  "leftmost f (c # s) = (case f (c # s) of Some m \<Rightarrow> Some m | None \<Rightarrow> leftmost f s)"
proof -
  have "[0 ..< Suc (Suc (length s))] = 0 # map Suc [0 ..< Suc (length s)]"
    by (simp only: map_Suc_upt upt_conv_Cons [of 0 "Suc (Suc (length s))"] zero_less_Suc)
  then have "leftmost f (c # s) =
             first_some (f (c # s) # map (\<lambda>k. f (drop k s)) [0 ..< Suc (length s)])"
    by (simp add: leftmost_def comp_def del: upt_Suc)
  then show ?thesis by (cases "f (c # s)") (simp_all add: leftmost_def)
qed

lemma search_from_leftmost:
  "search_from (map Lit lit @ [Group n]) bos s = leftmost (lit_group lit n) s"
proof (induction s arbitrary: bos)
  case Nil
  then show ?case by (simp add: match_atoms_lit_group leftmost_Nil del: match_atoms.simps)
next
  case (Cons c s)
  show ?case
    by (simp add: match_atoms_lit_group leftmost_Cons Cons.IH split: option.splits
        del: match_atoms.simps)
qed

lemma re_search_lit_group:
  "re_search (patterns ! 0) url = leftmost (lit_group ''/folders/'' 1) url"
  "re_search (patterns ! 1) url = leftmost (lit_group ''/drive/folders/'' 1) url"
  "re_search (patterns ! 2) url = leftmost (lit_group ''id='' 1) url"
  "re_search (patterns ! 3) url = bare_id url"
  by (simp_all only: patterns_nth re_search_def search_from_leftmost re_search_bare_id [unfolded re_search_def])

text \<open>
  C3. The four patterns are tried in the order folder path, drive-folder path, \<open>id=\<close>
  query parameter, bare identifier of at least 25 characters. When pattern \<open>i\<close> matches
  somewhere in the string and no earlier pattern does, the result is the group captured by
  pattern \<open>i\<close>, which is a non-empty identifier; the result is \<open>None\<close> exactly when none of
  the four patterns matches. What each pattern captures: for the first three, the longest
  run of identifier characters after the leftmost occurrence of the literal that is
  followed by one; for the fourth, the whole string without a final newline, when it
  consists of at least 25 identifier characters.
\<close>

theorem extract_folder_id_first_match:
  "(i < length patterns \<and> re_search (patterns ! i) url = Some m \<and>
    (\<forall>j<i. re_search (patterns ! j) url = None)
      \<longrightarrow> extract_folder_id url = group1 m \<and> (\<exists>g. group1 m = Some g \<and> g \<noteq> []))
   \<and> (extract_folder_id url = None \<longleftrightarrow>
        (\<forall>i<length patterns. re_search (patterns ! i) url = None))
   \<and> patterns =
        [map Lit ''/folders/'' @ [Group 1],
         map Lit ''/drive/folders/'' @ [Group 1],
         map Lit ''id='' @ [Group 1],
         [Bol, Group 25, Eol]]
   \<and> re_search (patterns ! 0) url = leftmost (lit_group ''/folders/'' 1) url
   \<and> re_search (patterns ! 1) url = leftmost (lit_group ''/drive/folders/'' 1) url
   \<and> re_search (patterns ! 2) url = leftmost (lit_group ''id='' 1) url
   \<and> re_search (patterns ! 3) url = bare_id url"
proof (intro conjI impI)
  assume a: "i < length patterns \<and> re_search (patterns ! i) url = Some m \<and>
    (\<forall>j<i. re_search (patterns ! j) url = None)"
  then show "extract_folder_id url = group1 m"
    unfolding extract_folder_id_def using extract_from_first [of i patterns url m] by blast
  from a re_search_patterns_like [of i url m] show "\<exists>g. group1 m = Some g \<and> g \<noteq> []"
    by (auto simp: folder_id_like_def)
next
  show "extract_folder_id url = None \<longleftrightarrow>
        (\<forall>i<length patterns. re_search (patterns ! i) url = None)"
    by (rule extract_from_None_iff)
next
  show "patterns =
        [map Lit ''/folders/'' @ [Group 1],
         map Lit ''/drive/folders/'' @ [Group 1],
         map Lit ''id='' @ [Group 1],
         [Bol, Group 25, Eol]]"
    by (rule patterns_def)
next
  show "re_search (patterns ! 0) url = leftmost (lit_group ''/folders/'' 1) url"
    by (rule re_search_lit_group)
  show "re_search (patterns ! 1) url = leftmost (lit_group ''/drive/folders/'' 1) url"
    by (rule re_search_lit_group)
  show "re_search (patterns ! 2) url = leftmost (lit_group ''id='' 1) url"
    by (rule re_search_lit_group)
  show "re_search (patterns ! 3) url = bare_id url"
    by (rule re_search_lit_group)
qed

lemma length_patterns: "length patterns = 4"
  by (simp add: patterns_def)

theorem extract_folder_id_first_match_witness:
  "re_search (patterns ! 0) ''https://drive.google.com/open?id=1AbC'' = None \<and>
   re_search (patterns ! 1) ''https://drive.google.com/open?id=1AbC'' = None \<and>
   re_search (patterns ! 2) ''https://drive.google.com/open?id=1AbC'' = Some (Match (Some ''1AbC'')) \<and>
   extract_folder_id ''https://drive.google.com/open?id=1AbC'' = Some ''1AbC'' \<and>
   re_search (patterns ! 0) ''https://drive.google.com/drive/folders/1AbC_d-9?usp=sharing''
     = Some (Match (Some ''1AbC_d-9'')) \<and>
   extract_folder_id ''https://drive.google.com/drive/folders/1AbC_d-9?usp=sharing''
     = Some ''1AbC_d-9'' \<and>
   re_search (patterns ! 3) ''1a2B3c4D5e6F7g8H9i0J_k-LmN''
     = Some (Match (Some ''1a2B3c4D5e6F7g8H9i0J_k-LmN'')) \<and>
   extract_folder_id ''1a2B3c4D5e6F7g8H9i0J_k-LmN'' = Some ''1a2B3c4D5e6F7g8H9i0J_k-LmN'' \<and>
   extract_folder_id ''not a drive link'' = None"
proof -
  let ?u = "''https://drive.google.com/open?id=1AbC''"
  let ?v = "''https://drive.google.com/drive/folders/1AbC_d-9?usp=sharing''"
  let ?b = "''1a2B3c4D5e6F7g8H9i0J_k-LmN''"
  let ?n = "''not a drive link''"
  have u: "\<forall>j<2. re_search (patterns ! j) ?u = None"
  proof (intro allI impI)
    fix j :: nat assume "j < 2"
    then have "j = 0 \<or> j = 1" by linarith
    then show "re_search (patterns ! j) ?u = None" using search_examples by auto
  qed
  have b: "\<forall>j<3. re_search (patterns ! j) ?b = None"
  proof (intro allI impI)
    fix j :: nat assume "j < 3"
    then have "j = 0 \<or> j = 1 \<or> j = 2" by linarith
    then show "re_search (patterns ! j) ?b = None" using bare_example by auto
  qed
  have n: "\<forall>j<length patterns. re_search (patterns ! j) ?n = None"
  proof (intro allI impI)
    fix j :: nat assume "j < length patterns"
    then have "j = 0 \<or> j = 1 \<or> j = 2 \<or> j = 3" unfolding length_patterns by linarith
    then show "re_search (patterns ! j) ?n = None" using search_examples by auto
  qed
  have 1: "extract_folder_id ?u = Some ''1AbC''"
    using extract_folder_id_first_match [of 2 ?u "Match (Some ''1AbC'')"] u search_examples(4)
    by (simp add: length_patterns)
  have 2: "extract_folder_id ?v = Some ''1AbC_d-9''"
    using extract_folder_id_first_match [of 0 ?v "Match (Some ''1AbC_d-9'')"] search_examples(1)
    by (simp add: length_patterns)
  have 3: "extract_folder_id ?b = Some ?b"
    using extract_folder_id_first_match [of 3 ?b "Match (Some ?b)"] b bare_example(4)
    by (simp add: length_patterns)
  have 4: "extract_folder_id ?n = None"
    using extract_folder_id_first_match [of 0 ?n] n by blast
  show ?thesis
    using 1 2 3 4 search_examples(1-4) bare_example(4) by blast
qed

lemma drive_folders_example:
  "match_atoms (patterns ! 1) True ''/drive/folders/abc?x'' None = Some (Match (Some ''abc''))"
  "match_atoms (patterns ! 0) False (drop 6 ''/drive/folders/abc?x'') None = Some (Match (Some ''abc''))"
  "extract_folder_id ''/drive/folders/abc?x'' = Some ''abc''"
  "extract_folder_id_from [patterns ! 0, patterns ! 2, patterns ! 3] ''/drive/folders/abc?x''
     = Some ''abc''"
  by code_simp+

text \<open>
  C9. The second pattern is redundant: on every string the extractor returns what the
  extractor without the second pattern returns. The reason is that a match of the second
  pattern at some position is, six characters further, a match of the first pattern with
  the same captured group.
\<close>

theorem drive_folders_pattern_redundant:
  "extract_folder_id url = extract_folder_id_from [patterns ! 0, patterns ! 2, patterns ! 3] url
   \<and> (match_atoms (patterns ! 1) bos s None = Some m \<longrightarrow>
        match_atoms (patterns ! 0) False (drop 6 s) None = Some m)"
proof (intro conjI impI)
  show "extract_folder_id url =
        extract_folder_id_from [patterns ! 0, patterns ! 2, patterns ! 3] url"
    by (rule extract_without_second)
next
  assume "match_atoms (patterns ! 1) bos s None = Some m"
  then have "lit_group ''/drive/folders/'' 1 s = Some m"
    by (simp only: patterns_nth match_atoms_lit_group)
  from lit_group_drive_folders [OF this]
  show "match_atoms (patterns ! 0) False (drop 6 s) None = Some m"
    by (simp only: patterns_nth match_atoms_lit_group)
qed

theorem drive_folders_pattern_redundant_witness:
  "match_atoms (patterns ! 1) True ''/drive/folders/abc?x'' None = Some (Match (Some ''abc'')) \<and>
   match_atoms (patterns ! 0) False (drop 6 ''/drive/folders/abc?x'') None
     = Some (Match (Some ''abc'')) \<and>
   extract_folder_id ''/drive/folders/abc?x'' = Some ''abc'' \<and>
   extract_folder_id_from [patterns ! 0, patterns ! 2, patterns ! 3] ''/drive/folders/abc?x''
     = Some ''abc''"
  using drive_folders_pattern_redundant [of "''/drive/folders/abc?x''" True
      "''/drive/folders/abc?x''" "Match (Some ''abc'')"]
    drive_folders_example(1,3)
  by simp

section \<open>Paginated listing\<close>

lemma list_children_loop_chain:
  "page_chain service folder_id token pages \<Longrightarrow>
   list_children_loop service folder_id acc token =
     Some (Inr (acc @ concat (map files_or_empty pages)))"
proof (induction pages arbitrary: acc token)
  case Nil
  then show ?case by simp
next
  case (Cons p ps)
  show ?case
  proof (cases "ps = []")
    case True
    with Cons.prems show ?thesis
      by (subst list_children_loop.simps) simp
  next
    case False
    with Cons.prems have a: "service (files_list folder_id token) = Inr p"
      and b: "truthy (nextPageToken p)"
      and c: "page_chain service folder_id (nextPageToken p) ps"
      by simp_all
    show ?thesis
      by (subst list_children_loop.simps) (simp add: a b Cons.IH [OF c])
  qed
qed

lemma paged_service_chain: "page_chain paged_service ''F'' None three_pages"
  by (simp add: paged_service_def three_pages_def table_service_def q_of_def files_list_def
      truthy_def)

text \<open>
  C2. When the listing of a folder is a finite chain of pages, each page but the last
  carrying the continuation token under which the service returns the next one, and the
  last page carrying none (the loop takes an empty token for none, as \<open>not page_token\<close>
  does), \<open>list_children\<close> returns: its result is the concatenation of the item lists of
  all the pages in order, so every item of every page occurs in it exactly as often as in
  the pages.
\<close>

theorem list_children_merges_pages:
  "page_chain service folder_id None pages \<Longrightarrow>
   list_children service folder_id = Some (Inr (concat (map files_or_empty pages)))"
  unfolding list_children_def by (simp add: list_children_loop_chain)

theorem list_children_merges_pages_witness:
  "page_chain paged_service ''F'' None three_pages \<and>
   list_children paged_service ''F'' =
     Some (Inr [mk_item ''a'' ''a.mp3'' ''audio/mpeg'', mk_item ''b'' ''b.txt'' ''text/plain'',
                mk_item ''a'' ''a.mp3'' ''audio/mpeg''])"
  using list_children_merges_pages [OF paged_service_chain] paged_service_chain
  by (simp add: three_pages_def files_or_empty_def)

lemma list_children_table:
  "list_children (table_service tbl) folder_id =
     (case map_of tbl (q_of folder_id, None) of
        None \<Rightarrow> Some (Inl (HttpError ''notFound''))
      | Some resp \<Rightarrow>
          if truthy (nextPageToken resp)
          then list_children_loop (table_service tbl) folder_id (files_or_empty resp)
                 (nextPageToken resp)
          else Some (Inr (files_or_empty resp)))"
  unfolding list_children_def
  by (subst list_children_loop.simps)
     (simp add: table_service_def q_of_def files_list_def split: option.splits)

lemma q_of_inject [simp]: "q_of a = q_of b \<longleftrightarrow> a = b"
  by (simp add: q_of_def files_list_def)

section \<open>The recursive walk\<close>

lemma fold_max_ge_init: "(a::nat) \<le> fold max xs a"
  by (induction xs arbitrary: a) (auto intro: order_trans [OF max.cobounded2])

lemma fold_max_ge_elem: "x \<in> set xs \<Longrightarrow> (x::nat) \<le> fold max xs a"
proof (induction xs arbitrary: a)
  case Nil
  then show ?case by simp
next
  case (Cons y ys)
  show ?case
  proof (cases "x = y")
    case True
    have "y \<le> max y a" by simp
    also have "\<dots> \<le> fold max ys (max y a)" by (rule fold_max_ge_init)
    finally show ?thesis using True by simp
  next
    case False
    with Cons.prems have "x \<in> set ys" by simp
    then show ?thesis using Cons.IH by simp
  qed
qed

lemma height_child: "t \<in> set ts \<Longrightarrow> height t \<le> fold max (map height ts) 0"
  by (rule fold_max_ge_elem) simp

lemma scan_items_children:
  assumes "\<And>t items results. t \<in> set ts \<Longrightarrow>
             scan_items rec path (root_item t # items) results =
             scan_items rec path items (results @ R t)"
  shows "scan_items rec path (map root_item ts @ items) results =
         scan_items rec path items (results @ concat (map R ts))"
  using assms
proof (induction ts arbitrary: results)
  case Nil
  then show ?case by simp
next
  case (Cons t ts)
  have "scan_items rec path (map root_item (t # ts) @ items) results =
        scan_items rec path (map root_item ts @ items) (results @ R t)"
    using Cons.prems [of t] by simp
  also have "\<dots> = scan_items rec path items ((results @ R t) @ concat (map R ts))"
    by (rule Cons.IH) (rule Cons.prems, simp)
  finally show ?case by simp
qed

lemma scan_items_tree:
  "served service t \<Longrightarrow> height t \<le> n \<Longrightarrow>
   scan_items (scan_folder_recursive n service) path (root_item t # items) results =
   scan_items (scan_folder_recursive n service) path items (results @ walk_rows path t)"
proof (induction t arbitrary: n path items results)
  case (File it)
  then show ?case
    by (simp add: is_folder_def audio_row_def Let_def)
next
  case (Folder it ts)
  let ?name = "dict_get it ''name'' ''''"
  let ?np = "if path \<noteq> [] then path @ ''/'' @ ?name else ?name"
  from Folder.prems obtain m where n: "n = Suc m" and m: "fold max (map height ts) 0 \<le> m"
    by (cases n) auto
  from Folder.prems have fol: "is_folder it"
    and ls: "list_children service (dict_get it ''id'' '''') = Some (Inr (map root_item ts))"
    and sv: "\<And>t. t \<in> set ts \<Longrightarrow> served service t"
    by simp_all
  have step: "\<And>t items results. t \<in> set ts \<Longrightarrow>
      scan_items (scan_folder_recursive m service) ?np (root_item t # items) results =
      scan_items (scan_folder_recursive m service) ?np items (results @ walk_rows ?np t)"
  proof -
    fix t items results assume t: "t \<in> set ts"
    have "height t \<le> m" using height_child [OF t] m by simp
    then show "scan_items (scan_folder_recursive m service) ?np (root_item t # items) results =
      scan_items (scan_folder_recursive m service) ?np items (results @ walk_rows ?np t)"
      using Folder.IH [OF t sv [OF t]] by blast
  qed
  have "scan_items (scan_folder_recursive m service) ?np (map root_item ts @ []) [] =
        scan_items (scan_folder_recursive m service) ?np [] ([] @ concat (map (walk_rows ?np) ts))"
    by (rule scan_items_children) (rule step)
  then have sub: "scan_folder_recursive n service (dict_get it ''id'' '''') ?np =
        Some (Inr (concat (map (walk_rows ?np) ts)))"
    by (simp add: n ls)
  show ?case
    using fol sub by (simp add: is_folder_def Let_def del: scan_folder_recursive.simps)
qed

lemma scan_folder_recursive_forest:
  assumes "served_root service folder_id ts" and "fold max (map height ts) 0 < fuel"
  shows "scan_folder_recursive fuel service folder_id path =
         Some (Inr (concat (map (walk_rows path) ts)))"
proof -
  from assms(2) obtain m where fuel: "fuel = Suc m" and m0: "fold max (map height ts) 0 \<le> m"
    by (cases fuel) auto
  have m: "\<And>t. t \<in> set ts \<Longrightarrow> height t \<le> m"
    using height_child m0 by (blast intro: order_trans)
  from assms(1) have ls: "list_children service folder_id = Some (Inr (map root_item ts))"
    and sv: "\<And>t. t \<in> set ts \<Longrightarrow> served service t"
    by (simp_all add: served_root_def)
  have "scan_items (scan_folder_recursive m service) path (map root_item ts @ []) [] =
        scan_items (scan_folder_recursive m service) path [] ([] @ concat (map (walk_rows path) ts))"
    by (rule scan_items_children) (rule scan_items_tree [OF sv m])
  then show ?thesis by (simp add: fuel ls)
qed

lemma slash_join_snoc:
  "names \<noteq> [] \<Longrightarrow> slash_join (names @ [n]) = slash_join names @ ''/'' @ n"
  by (induction names rule: slash_join.induct) simp_all

lemma slash_join_empty_iff:
  "\<forall>n \<in> set names. n \<noteq> [] \<Longrightarrow> slash_join names = [] \<longleftrightarrow> names = []"
  by (induction names rule: slash_join.induct) simp_all

lemma walk_rows_spec_rows:
  "folders_named t \<Longrightarrow> \<forall>n \<in> set names. n \<noteq> [] \<Longrightarrow>
   walk_rows (slash_join names) t = spec_rows names t"
proof (induction t arbitrary: names)
  case (File it)
  then show ?case by simp
next
  case (Folder it ts)
  let ?name = "dict_get it ''name'' ''''"
  from Folder.prems have nm: "?name \<noteq> []" and fn: "\<And>t. t \<in> set ts \<Longrightarrow> folders_named t"
    by simp_all
  have ext: "(if slash_join names \<noteq> [] then slash_join names @ ''/'' @ ?name else ?name) =
             slash_join (names @ [?name])"
    using slash_join_empty_iff [OF Folder.prems(2)] by (cases "names = []") (simp_all add: slash_join_snoc)
  have all: "\<forall>n \<in> set (names @ [?name]). n \<noteq> []"
    using Folder.prems(2) nm by simp
  have "map (walk_rows (slash_join (names @ [?name]))) ts = map (spec_rows (names @ [?name])) ts"
    by (rule map_cong [OF refl]) (rule Folder.IH [OF _ fn all])
  then show ?case by (simp only: walk_rows.simps spec_rows.simps ext)
qed

lemma mk_item_get [simp]:
  "dict_get (mk_item i n m) ''id'' d = i"
  "dict_get (mk_item i n m) ''name'' d = n"
  "dict_get (mk_item i n m) ''mimeType'' d = m"
  "dict_get (mk_item i n m) ''createdTime'' d = ''2024-01-01T00:00:00.000Z''"
  "dict_get (mk_item i n m) ''webViewLink'' d = ''https://drive.google.com/file/d/'' @ i @ ''/view''"
  by (simp_all add: dict_get_def mk_item_def)

lemma demo_list:
  "list_children demo_service ''ROOT'' = Some (Inr (map root_item demo_tree))"
  "list_children demo_service ''A'' =
     Some (Inr [mk_item ''L'' ''Live'' folder_mime, mk_item ''f3'' ''Track.FLAC'' ''audio/flac''])"
  "list_children demo_service ''L'' =
     Some (Inr [mk_item ''D'' ''Deep'' folder_mime, mk_item ''f4'' ''b.ogg'' ''audio/ogg''])"
  "list_children demo_service ''D'' =
     Some (Inr [mk_item ''f5'' ''deep.wav'' ''audio/wav'', mk_item ''f6'' ''readme.md'' ''text/markdown''])"
  by (simp_all add: demo_service_def tree_service_def demo_tree_def list_children_table
      truthy_def files_or_empty_def)

lemma demo_served: "served_root demo_service ''ROOT'' demo_tree"
  unfolding served_root_def
  by (simp add: demo_list) (simp add: demo_tree_def demo_list is_folder_def folder_mime_def)

lemma demo_height: "fold max (map height demo_tree) 0 < 4"
  by (simp add: demo_tree_def)

lemma audio_names:
  "is_audio_file ''song1.mp3''" "\<not> is_audio_file ''notes.txt''" "is_audio_file ''deep.wav''"
  "\<not> is_audio_file ''readme.md''" "is_audio_file ''b.ogg''" "is_audio_file ''Track.FLAC''"
  "is_audio_file ''x.mp3''"
  by code_simp+

lemma demo_walk_rows:
  "concat (map (walk_rows []) demo_tree) =
     [audio_row [] (mk_item ''f1'' ''song1.mp3'' ''audio/mpeg''),
      audio_row ''Albums/Live/Deep'' (mk_item ''f5'' ''deep.wav'' ''audio/wav''),
      audio_row ''Albums/Live'' (mk_item ''f4'' ''b.ogg'' ''audio/ogg''),
      audio_row ''Albums'' (mk_item ''f3'' ''Track.FLAC'' ''audio/flac'')]"
  by (simp add: demo_tree_def audio_names)

lemma scan_items_audio_step:
  "\<not> is_folder it \<Longrightarrow> is_audio_file (dict_get it ''name'' '''') \<Longrightarrow>
   scan_items recurse path (it # items) results =
   scan_items recurse path items (results @ [audio_row path it])"
  by (simp add: is_folder_def audio_row_def Let_def)

lemma scan_items_skip_step:
  "\<not> is_folder it \<Longrightarrow> \<not> is_audio_file (dict_get it ''name'' '''') \<Longrightarrow>
   scan_items recurse path (it # items) results = scan_items recurse path items results"
  by (simp add: is_folder_def Let_def)

lemma scan_items_folder_step:
  "is_folder it \<Longrightarrow>
   scan_items recurse path (it # items) results =
     (case recurse (dict_get it ''id'' '''')
             (if path = [] then dict_get it ''name'' ''''
              else path @ ''/'' @ dict_get it ''name'' '''') of
        None \<Rightarrow> None
      | Some (Inl e) \<Rightarrow> Some (Inl e)
      | Some (Inr rows) \<Rightarrow> scan_items recurse path items (results @ rows))"
  by (simp add: is_folder_def Let_def)

lemma scan_items_pred:
  assumes rec: "\<And>fid p rows. recurse fid p = Some (Inr rows) \<Longrightarrow> list_all Q rows"
    and emit: "\<And>it. Q (audio_row path it)"
  shows "list_all Q results \<Longrightarrow> scan_items recurse path items results = Some (Inr out) \<Longrightarrow>
         list_all Q out"
proof (induction items arbitrary: results)
  case Nil
  then show ?case by simp
next
  case (Cons it items)
  show ?case
  proof (cases "is_folder it")
    case True
    let ?sub = "recurse (dict_get it ''id'' '''')
                  (if path = [] then dict_get it ''name'' '''' else path @ ''/'' @ dict_get it ''name'' '''')"
    from Cons.prems(2) True obtain rows where sub: "?sub = Some (Inr rows)"
      and rest: "scan_items recurse path items (results @ rows) = Some (Inr out)"
      by (auto simp: scan_items_folder_step simp del: scan_items.simps split: option.splits sum.splits)
    from rec [OF sub] Cons.prems(1) have "list_all Q (results @ rows)" by simp
    from Cons.IH [OF this rest] show ?thesis .
  next
    case False
    show ?thesis
    proof (cases "is_audio_file (dict_get it ''name'' '''')")
      case True
      with False Cons.prems(2)
      have rest: "scan_items recurse path items (results @ [audio_row path it]) = Some (Inr out)"
        by (simp add: scan_items_audio_step del: scan_items.simps)
      have "list_all Q (results @ [audio_row path it])" using Cons.prems(1) emit by simp
      from Cons.IH [OF this rest] show ?thesis .
    next
      case notaudio: False
      with False Cons.prems(2) have "scan_items recurse path items results = Some (Inr out)"
        by (simp add: scan_items_skip_step del: scan_items.simps)
      from Cons.IH [OF Cons.prems(1) this] show ?thesis .
    qed
  qed
qed

lemma scan_folder_recursive_pred:
  assumes emit: "\<And>p it. Q (audio_row p it)"
  shows "scan_folder_recursive fuel service folder_id path = Some (Inr out) \<Longrightarrow> list_all Q out"
proof (induction fuel arbitrary: folder_id path out)
  case 0
  then show ?case by simp
next
  case (Suc fuel)
  from Suc.prems obtain items where
    "scan_items (scan_folder_recursive fuel service) path items [] = Some (Inr out)"
    by (auto split: option.splits sum.splits)
  moreover have "list_all Q []" by simp
  ultimately show ?case
    using scan_items_pred [of "scan_folder_recursive fuel service" Q path "[]" items out]
      Suc.IH emit by blast
qed

lemma scan_items_emits:
  "scan_items recurse path items results = Some (Inr out) \<Longrightarrow>
   set results \<subseteq> set out \<and>
   (\<forall>it \<in> set items. \<not> is_folder it \<and> is_audio_file (dict_get it ''name'' '''')
      \<longrightarrow> audio_row path it \<in> set out)"
proof (induction items arbitrary: results)
  case Nil
  then show ?case by simp
next
  case (Cons it items)
  show ?case
  proof (cases "is_folder it")
    case True
    from Cons.prems True obtain rows where
      rest: "scan_items recurse path items (results @ rows) = Some (Inr out)"
      by (auto simp: scan_items_folder_step simp del: scan_items.simps split: option.splits sum.splits)
    from Cons.IH [OF rest] True show ?thesis by auto
  next
    case False
    show ?thesis
    proof (cases "is_audio_file (dict_get it ''name'' '''')")
      case True
      with False Cons.prems
      have rest: "scan_items recurse path items (results @ [audio_row path it]) = Some (Inr out)"
        by (simp add: scan_items_audio_step del: scan_items.simps)
      from Cons.IH [OF rest] show ?thesis by auto
    next
      case notaudio: False
      with False Cons.prems have "scan_items recurse path items results = Some (Inr out)"
        by (simp add: scan_items_skip_step del: scan_items.simps)
      from Cons.IH [OF this] notaudio show ?thesis by auto
    qed
  qed
qed

lemma demo_walk: "concat (map (walk_rows []) demo_tree) = demo_rows"
  by (simp add: demo_walk_rows audio_row_def demo_rows_def)

lemma demo_spec: "concat (map (spec_rows []) demo_tree) = demo_rows"
  by (simp add: demo_tree_def audio_names audio_row_def demo_rows_def)

lemma demo_named: "list_all folders_named demo_tree"
  by (simp add: demo_tree_def)

lemma unnamed_list:
  "list_children unnamed_service ''ROOT'' = Some (Inr (map root_item unnamed_tree))"
  "list_children unnamed_service ''U'' = Some (Inr [mk_item ''B'' ''b'' folder_mime])"
  "list_children unnamed_service ''B'' = Some (Inr [mk_item ''x'' ''x.mp3'' ''audio/mpeg''])"
  by (simp_all add: unnamed_service_def tree_service_def unnamed_tree_def list_children_table
      truthy_def files_or_empty_def)

lemma unnamed_served: "served_root unnamed_service ''ROOT'' unnamed_tree"
  unfolding served_root_def
  by (simp add: unnamed_list) (simp add: unnamed_tree_def unnamed_list is_folder_def folder_mime_def)

lemma unnamed_height: "fold max (map height unnamed_tree) 0 < 3"
  by (simp add: unnamed_tree_def)

lemma unnamed_walk:
  "concat (map (walk_rows []) unnamed_tree) =
     [[''x.mp3'', ''b'', ''https://drive.google.com/file/d/x/view'',
       ''https://drive.google.com/file/d/x/view?usp=sharing'',
       ''https://drive.google.com/uc?id=x'', ''2024-01-01T00:00:00.000Z'', ''x'']]"
  by (simp add: unnamed_tree_def audio_names audio_row_def)

lemma unnamed_spec:
  "concat (map (spec_rows []) unnamed_tree) =
     [[''x.mp3'', ''/b'', ''https://drive.google.com/file/d/x/view'',
       ''https://drive.google.com/file/d/x/view?usp=sharing'',
       ''https://drive.google.com/uc?id=x'', ''2024-01-01T00:00:00.000Z'', ''x'']]"
  by (simp add: unnamed_tree_def audio_names audio_row_def)

text \<open>
  C1, as stated, fails on a folder without a name: below the root lies an unnamed folder,
  in it the folder \<open>b\<close>, in it \<open>x.mp3\<close>. The walk emits the path \<open>b\<close>, while the
  slash-joined concatenation of the folder names on the path is \<open>/b\<close>.
\<close>

theorem slash_join_fails_on_unnamed_folder:
  "served_root unnamed_service ''ROOT'' unnamed_tree \<and>
   fold max (map height unnamed_tree) 0 < 3 \<and>
   scan_folder_recursive 3 unnamed_service ''ROOT'' [] =
     Some (Inr [[''x.mp3'', ''b'', ''https://drive.google.com/file/d/x/view'',
                 ''https://drive.google.com/file/d/x/view?usp=sharing'',
                 ''https://drive.google.com/uc?id=x'', ''2024-01-01T00:00:00.000Z'', ''x'']]) \<and>
   concat (map (spec_rows []) unnamed_tree) =
     [[''x.mp3'', ''/b'', ''https://drive.google.com/file/d/x/view'',
       ''https://drive.google.com/file/d/x/view?usp=sharing'',
       ''https://drive.google.com/uc?id=x'', ''2024-01-01T00:00:00.000Z'', ''x'']] \<and>
   scan_folder_recursive 3 unnamed_service ''ROOT'' [] \<noteq>
     Some (Inr (concat (map (spec_rows []) unnamed_tree)))"
  using scan_folder_recursive_forest [OF unnamed_served unnamed_height, of "[]"]
    unnamed_served unnamed_height
  by (simp add: unnamed_walk unnamed_spec)

text \<open>
  C1, amended. For every finite folder tree served by the Drive service, and fuel above
  its height, \<open>scan_folder_recursive\<close> started at the root with the empty path returns
  exactly the rows of the non-folder items whose names classify as audio, in depth-first
  order, folders contributing no row of their own. Each row carries the path the walk
  builds: a folder name is appended after a slash to a non-empty path and replaces an
  empty one. Whenever every folder of the tree has a non-empty name, that path is the
  slash-joined concatenation of the names of the folders from the root to the item.
\<close>

theorem scan_folder_recursive_walks_tree:
  assumes "served_root service folder_id ts" and "fold max (map height ts) 0 < fuel"
  shows "scan_folder_recursive fuel service folder_id [] =
           Some (Inr (concat (map (walk_rows []) ts))) \<and>
         (list_all folders_named ts \<longrightarrow>
            scan_folder_recursive fuel service folder_id [] =
              Some (Inr (concat (map (spec_rows []) ts))))"
proof (intro conjI impI)
  show walk: "scan_folder_recursive fuel service folder_id [] =
           Some (Inr (concat (map (walk_rows []) ts)))"
    by (rule scan_folder_recursive_forest [OF assms])
  assume named: "list_all folders_named ts"
  have "map (walk_rows []) ts = map (spec_rows []) ts"
  proof (rule map_cong [OF refl])
    fix t assume "t \<in> set ts"
    with named have "folders_named t" by (simp add: list_all_iff)
    from walk_rows_spec_rows [OF this, of "[]"] show "walk_rows [] t = spec_rows [] t" by simp
  qed
  with walk show "scan_folder_recursive fuel service folder_id [] =
              Some (Inr (concat (map (spec_rows []) ts)))" by simp
qed

theorem scan_folder_recursive_walks_tree_witness:
  "served_root demo_service ''ROOT'' demo_tree \<and>
   fold max (map height demo_tree) 0 < 4 \<and>
   list_all folders_named demo_tree \<and>
   concat (map (spec_rows []) demo_tree) = demo_rows \<and>
   scan_folder_recursive 4 demo_service ''ROOT'' [] = Some (Inr demo_rows)"
  using scan_folder_recursive_walks_tree [OF demo_served demo_height] demo_served demo_height
    demo_named
  by (simp add: demo_spec demo_walk)

lemma demo_scan: "scan_folder_recursive 4 demo_service ''ROOT'' [] = Some (Inr demo_rows)"
  using scan_folder_recursive_forest [OF demo_served demo_height, of "[]"] by (simp add: demo_walk)

lemma demo_items:
  "\<not> is_folder (mk_item ''f1'' ''song1.mp3'' ''audio/mpeg'')"
  "is_folder (mk_item ''A'' ''Albums'' folder_mime)"
  "mk_item ''f1'' ''song1.mp3'' ''audio/mpeg'' \<in> set (map root_item demo_tree)"
  by (simp_all add: is_folder_def folder_mime_def demo_tree_def)

text \<open>
  C8. For an item that is not a folder and whose name classifies as audio, the walk appends
  one row whose share link is \<open>https://drive.google.com/file/d/{id}/view?usp=sharing\<close> and
  whose direct download link is \<open>https://drive.google.com/uc?id={id}\<close>, with the item's
  identifier in place of \<open>{id}\<close>. Every row a scan returns has seven fields, and its
  fourth and fifth fields are these two templates filled with its seventh field, the file
  identifier.
\<close>

theorem emitted_links_from_file_id:
  "(\<not> is_folder it \<and> is_audio_file (dict_get it ''name'' '''') \<longrightarrow>
      scan_items recurse path (it # items) results =
      scan_items recurse path items
        (results @ [[dict_get it ''name'' '''', path, dict_get it ''webViewLink'' '''',
                     ''https://drive.google.com/file/d/'' @ dict_get it ''id'' '''' @ ''/view?usp=sharing'',
                     ''https://drive.google.com/uc?id='' @ dict_get it ''id'' '''',
                     dict_get it ''createdTime'' '''', dict_get it ''id'' '''']]))
   \<and> (scan_folder_recursive fuel service folder_id root_path = Some (Inr rows) \<and> r \<in> set rows \<longrightarrow>
        length r = 7 \<and>
        r ! 3 = ''https://drive.google.com/file/d/'' @ r ! 6 @ ''/view?usp=sharing'' \<and>
        r ! 4 = ''https://drive.google.com/uc?id='' @ r ! 6)"
proof (intro conjI impI)
  assume "\<not> is_folder it \<and> is_audio_file (dict_get it ''name'' '''')"
  then show "scan_items recurse path (it # items) results =
      scan_items recurse path items
        (results @ [[dict_get it ''name'' '''', path, dict_get it ''webViewLink'' '''',
                     ''https://drive.google.com/file/d/'' @ dict_get it ''id'' '''' @ ''/view?usp=sharing'',
                     ''https://drive.google.com/uc?id='' @ dict_get it ''id'' '''',
                     dict_get it ''createdTime'' '''', dict_get it ''id'' '''']])"
    using scan_items_audio_step [of it recurse path items results] by (simp add: audio_row_def)
next
  let ?Q = "\<lambda>r. length r = 7 \<and>
        r ! 3 = ''https://drive.google.com/file/d/'' @ r ! 6 @ ''/view?usp=sharing'' \<and>
        r ! 4 = ''https://drive.google.com/uc?id='' @ r ! 6"
  assume a: "scan_folder_recursive fuel service folder_id root_path = Some (Inr rows) \<and> r \<in> set rows"
  have "list_all ?Q rows"
    by (rule scan_folder_recursive_pred [where Q = ?Q and fuel = fuel and service = service
          and folder_id = folder_id and path = root_path])
       (simp_all add: audio_row_def a)
  with a have q: "?Q r" by (simp add: list_all_iff)
  from q show "length r = 7" by simp
  from q show "r ! 3 = ''https://drive.google.com/file/d/'' @ r ! 6 @ ''/view?usp=sharing''" by simp
  from q show "r ! 4 = ''https://drive.google.com/uc?id='' @ r ! 6" by simp
qed

theorem emitted_links_from_file_id_witness:
  "\<not> is_folder (mk_item ''f1'' ''song1.mp3'' ''audio/mpeg'') \<and>
   is_audio_file ''song1.mp3'' \<and>
   scan_items (\<lambda>fid p. None) ''Albums'' [mk_item ''f1'' ''song1.mp3'' ''audio/mpeg''] [] =
     Some (Inr [[''song1.mp3'', ''Albums'', ''https://drive.google.com/file/d/f1/view'',
                 ''https://drive.google.com/file/d/f1/view?usp=sharing'',
                 ''https://drive.google.com/uc?id=f1'', ''2024-01-01T00:00:00.000Z'', ''f1'']]) \<and>
   scan_folder_recursive 4 demo_service ''ROOT'' [] = Some (Inr demo_rows) \<and>
   demo_rows ! 1 \<in> set demo_rows \<and>
   demo_rows ! 1 ! 6 = ''f5'' \<and>
   demo_rows ! 1 ! 3 = ''https://drive.google.com/file/d/f5/view?usp=sharing'' \<and>
   demo_rows ! 1 ! 4 = ''https://drive.google.com/uc?id=f5''"
proof -
  have in_rows: "demo_rows ! 1 \<in> set demo_rows" by (simp add: demo_rows_def)
  have id: "demo_rows ! 1 ! 6 = ''f5''" by (simp add: demo_rows_def)
  note inst = emitted_links_from_file_id
    [where it = "mk_item ''f1'' ''song1.mp3'' ''audio/mpeg''" and recurse = "\<lambda>fid p. None"
      and path = "''Albums''" and items = "[]" and results = "[]" and fuel = 4
      and service = demo_service and folder_id = "''ROOT''" and root_path = "[]"
      and rows = demo_rows and r = "demo_rows ! 1"]
  from inst demo_items(1) audio_names(1) have
    "scan_items (\<lambda>fid p. None) ''Albums'' [mk_item ''f1'' ''song1.mp3'' ''audio/mpeg''] [] =
     Some (Inr [[''song1.mp3'', ''Albums'', ''https://drive.google.com/file/d/f1/view'',
                 ''https://drive.google.com/file/d/f1/view?usp=sharing'',
                 ''https://drive.google.com/uc?id=f1'', ''2024-01-01T00:00:00.000Z'', ''f1'']])"
    by (simp del: scan_items.simps(2))
  moreover from inst demo_scan in_rows id have
    "demo_rows ! 1 ! 3 = ''https://drive.google.com/file/d/f5/view?usp=sharing'' \<and>
     demo_rows ! 1 ! 4 = ''https://drive.google.com/uc?id=f5''"
    by (simp del: scan_items.simps(2))
  ultimately show ?thesis
    using demo_items(1) audio_names(1) demo_scan in_rows id by simp
qed

text \<open>
  C10. An audio file listed directly in the folder the scan starts from gets a row whose
  Folder Path field is empty: the name of the starting folder is never part of a path.
  On a folder item the walk descends with the folder's name alone when the current path is
  empty, and with the current path, a slash and the folder's name otherwise.
\<close>

theorem root_children_have_empty_path:
  "(list_children service folder_id = Some (Inr items) \<and>
    scan_folder_recursive fuel service folder_id [] = Some (Inr rows) \<and>
    it \<in> set items \<and> \<not> is_folder it \<and> is_audio_file (dict_get it ''name'' '''')
      \<longrightarrow> audio_row [] it \<in> set rows \<and> audio_row [] it ! 1 = [])
   \<and> (is_folder it \<longrightarrow>
        scan_items recurse path (it # rest) results =
          (case recurse (dict_get it ''id'' '''')
                  (if path = [] then dict_get it ''name'' ''''
                   else path @ ''/'' @ dict_get it ''name'' '''') of
             None \<Rightarrow> None
           | Some (Inl e) \<Rightarrow> Some (Inl e)
           | Some (Inr sub) \<Rightarrow> scan_items recurse path rest (results @ sub)))"
proof (intro conjI impI)
  assume a: "list_children service folder_id = Some (Inr items) \<and>
    scan_folder_recursive fuel service folder_id [] = Some (Inr rows) \<and>
    it \<in> set items \<and> \<not> is_folder it \<and> is_audio_file (dict_get it ''name'' '''')"
  then obtain n where "fuel = Suc n" by (cases fuel) auto
  with a have "scan_items (scan_folder_recursive n service) [] items [] = Some (Inr rows)"
    by auto
  from scan_items_emits [OF this] a show "audio_row [] it \<in> set rows" by blast
  show "audio_row [] it ! 1 = []" by (simp add: audio_row_def)
next
  assume "is_folder it"
  then show "scan_items recurse path (it # rest) results =
          (case recurse (dict_get it ''id'' '''')
                  (if path = [] then dict_get it ''name'' ''''
                   else path @ ''/'' @ dict_get it ''name'' '''') of
             None \<Rightarrow> None
           | Some (Inl e) \<Rightarrow> Some (Inl e)
           | Some (Inr sub) \<Rightarrow> scan_items recurse path rest (results @ sub))"
    by (rule scan_items_folder_step)
qed

theorem root_children_have_empty_path_witness:
  "list_children demo_service ''ROOT'' = Some (Inr (map root_item demo_tree)) \<and>
   scan_folder_recursive 4 demo_service ''ROOT'' [] = Some (Inr demo_rows) \<and>
   mk_item ''f1'' ''song1.mp3'' ''audio/mpeg'' \<in> set (map root_item demo_tree) \<and>
   \<not> is_folder (mk_item ''f1'' ''song1.mp3'' ''audio/mpeg'') \<and>
   is_audio_file ''song1.mp3'' \<and>
   audio_row [] (mk_item ''f1'' ''song1.mp3'' ''audio/mpeg'') \<in> set demo_rows \<and>
   audio_row [] (mk_item ''f1'' ''song1.mp3'' ''audio/mpeg'') ! 1 = [] \<and>
   is_folder (mk_item ''A'' ''Albums'' folder_mime) \<and>
   scan_items (\<lambda>fid p. Some (Inr [[fid, p]])) [] [mk_item ''A'' ''Albums'' folder_mime] [] =
     Some (Inr [[''A'', ''Albums'']]) \<and>
   scan_items (\<lambda>fid p. Some (Inr [[fid, p]])) ''Music'' [mk_item ''A'' ''Albums'' folder_mime] [] =
     Some (Inr [[''A'', ''Music/Albums'']])"
proof -
  note root = root_children_have_empty_path
    [where service = demo_service and folder_id = "''ROOT''" and items = "map root_item demo_tree"
      and fuel = 4 and rows = demo_rows and it = "mk_item ''f1'' ''song1.mp3'' ''audio/mpeg''"]
  from root demo_list(1) demo_scan demo_items(1,3) audio_names(1)
  have a: "audio_row [] (mk_item ''f1'' ''song1.mp3'' ''audio/mpeg'') \<in> set demo_rows \<and>
           audio_row [] (mk_item ''f1'' ''song1.mp3'' ''audio/mpeg'') ! 1 = []"
    by simp
  have b: "scan_items (\<lambda>fid p. Some (Inr [[fid, p]])) [] [mk_item ''A'' ''Albums'' folder_mime] [] =
     Some (Inr [[''A'', ''Albums'']])"
    using root_children_have_empty_path
      [where it = "mk_item ''A'' ''Albums'' folder_mime"
        and recurse = "\<lambda>fid p. Some (Inr [[fid, p]])" and path = "[]" and rest = "[]"
        and results = "[]"]
      demo_items(2)
    by (simp del: scan_items.simps(2))
  have c: "scan_items (\<lambda>fid p. Some (Inr [[fid, p]])) ''Music'' [mk_item ''A'' ''Albums'' folder_mime] [] =
     Some (Inr [[''A'', ''Music/Albums'']])"
    using root_children_have_empty_path
      [where it = "mk_item ''A'' ''Albums'' folder_mime"
        and recurse = "\<lambda>fid p. Some (Inr [[fid, p]])" and path = "''Music''" and rest = "[]"
        and results = "[]"]
      demo_items(2)
    by (simp del: scan_items.simps(2))
  from a b c demo_list(1) demo_scan demo_items audio_names(1) show ?thesis by simp
qed

section \<open>CSV round trip\<close>

lemma csv_chars_distinct:
  "delimiter \<noteq> quotechar" "delimiter \<noteq> CR" "delimiter \<noteq> LF"
  "quotechar \<noteq> CR" "quotechar \<noteq> LF" "CR \<noteq> LF"
  by (simp_all add: delimiter_def quotechar_def CR_def LF_def)

lemma special_iff: "special c \<longleftrightarrow> c = delimiter \<or> c = quotechar \<or> c = CR \<or> c = LF"
  by (auto simp: special_def lineterminator_def)

lemma split_lines_Nil_iff: "split_lines s = [] \<longleftrightarrow> s = []"
  by (cases s) (auto split: list.splits)

lemma run_char:
  assumes "c \<noteq> LF" and "cs \<noteq> []"
  shows "read_records rd (split_lines (c # cs)) acc =
         (case parse_process_char rd (Some c) of
            Inl e \<Rightarrow> Inl e
          | Inr rd' \<Rightarrow> read_records rd' (split_lines cs) acc)"
proof -
  from assms(2) obtain l ls where ls: "split_lines cs = l # ls"
    by (cases "split_lines cs") (simp_all add: split_lines_Nil_iff)
  show ?thesis using assms(1) by (simp add: ls split: sum.splits)
qed

lemma run_LF:
  "read_records rd (split_lines (LF # cs)) acc =
     (case parse_process_char rd (Some LF) of
        Inl e \<Rightarrow> Inl e
      | Inr rd1 \<Rightarrow>
          (case parse_process_char rd1 None of
             Inl e \<Rightarrow> Inl e
           | Inr rd2 \<Rightarrow>
               if rd_state rd2 = START_RECORD
               then read_records parse_reset (split_lines cs) (acc @ [rd_fields rd2])
               else read_records rd2 (split_lines cs) acc))"
  by (simp split: sum.splits)

lemma ppc_in_field_plain:
  "\<not> special c \<Longrightarrow>
   parse_process_char (RD IN_FIELD buf fl) (Some c) = Inr (RD IN_FIELD (buf @ [c]) fl)"
  by (simp add: parse_process_char_def parse_add_char_def special_iff)

lemma ppc_delimiter:
  "parse_process_char (RD IN_FIELD buf fl) (Some delimiter) = Inr (RD START_FIELD [] (fl @ [buf]))"
  "parse_process_char (RD QUOTE_IN_QUOTED_FIELD buf fl) (Some delimiter) =
     Inr (RD START_FIELD [] (fl @ [buf]))"
  "parse_process_char (RD START_FIELD buf fl) (Some delimiter) = Inr (RD START_FIELD [] (fl @ [buf]))"
  by (simp_all add: parse_process_char_def parse_save_field_def start_field_def csv_chars_distinct
      csv_chars_distinct [symmetric])

lemma ppc_CR:
  "parse_process_char (RD IN_FIELD buf fl) (Some CR) = Inr (RD EAT_CRNL [] (fl @ [buf]))"
  "parse_process_char (RD QUOTE_IN_QUOTED_FIELD buf fl) (Some CR) =
     Inr (RD EAT_CRNL [] (fl @ [buf]))"
  "parse_process_char (RD START_FIELD buf fl) (Some CR) = Inr (RD EAT_CRNL [] (fl @ [buf]))"
  "parse_process_char (RD START_RECORD buf fl) (Some CR) = Inr (RD EAT_CRNL buf fl)"
  by (simp_all add: parse_process_char_def parse_save_field_def start_field_def csv_chars_distinct
      csv_chars_distinct [symmetric])

lemma ppc_eat:
  "parse_process_char (RD EAT_CRNL buf fl) (Some LF) = Inr (RD EAT_CRNL buf fl)"
  "parse_process_char (RD EAT_CRNL buf fl) None = Inr (RD START_RECORD buf fl)"
  by (simp_all add: parse_process_char_def)

lemma ppc_quoted:
  "parse_process_char (RD IN_QUOTED_FIELD buf fl) (Some quotechar) =
     Inr (RD QUOTE_IN_QUOTED_FIELD buf fl)"
  "c \<noteq> quotechar \<Longrightarrow>
   parse_process_char (RD IN_QUOTED_FIELD buf fl) (Some c) = Inr (RD IN_QUOTED_FIELD (buf @ [c]) fl)"
  "parse_process_char (RD IN_QUOTED_FIELD buf fl) None = Inr (RD IN_QUOTED_FIELD buf fl)"
  "parse_process_char (RD QUOTE_IN_QUOTED_FIELD buf fl) (Some quotechar) =
     Inr (RD IN_QUOTED_FIELD (buf @ [quotechar]) fl)"
  by (simp_all add: parse_process_char_def parse_add_char_def)

lemma ppc_start_field:
  "parse_process_char (RD START_FIELD buf fl) (Some quotechar) = Inr (RD IN_QUOTED_FIELD buf fl)"
  "\<not> special c \<Longrightarrow>
   parse_process_char (RD START_FIELD buf fl) (Some c) = Inr (RD IN_FIELD (buf @ [c]) fl)"
  by (simp_all add: parse_process_char_def start_field_def parse_add_char_def special_iff
      csv_chars_distinct)

lemma ppc_start_record:
  "c \<noteq> CR \<Longrightarrow> c \<noteq> LF \<Longrightarrow>
   parse_process_char (RD START_RECORD buf fl) (Some c) =
   parse_process_char (RD START_FIELD buf fl) (Some c)"
  by (simp add: parse_process_char_def)

lemma in_field_chars:
  "\<forall>c \<in> set f. \<not> special c \<Longrightarrow> rest \<noteq> [] \<Longrightarrow>
   read_records (RD IN_FIELD buf fl) (split_lines (f @ rest)) acc =
   read_records (RD IN_FIELD (buf @ f) fl) (split_lines rest) acc"
proof (induction f arbitrary: buf)
  case Nil
  then show ?case by simp
next
  case (Cons c f)
  from Cons.prems have c: "\<not> special c" and f: "\<forall>c \<in> set f. \<not> special c"
    by simp_all
  from c have "c \<noteq> LF" by (simp add: special_iff)
  moreover from Cons.prems have "f @ rest \<noteq> []" by simp
  ultimately have "read_records (RD IN_FIELD buf fl) (split_lines (c # (f @ rest))) acc =
      read_records (RD IN_FIELD (buf @ [c]) fl) (split_lines (f @ rest)) acc"
    by (simp add: run_char ppc_in_field_plain [OF c] del: split_lines.simps read_records.simps)
  also have "\<dots> = read_records (RD IN_FIELD ((buf @ [c]) @ f) fl) (split_lines rest) acc"
    by (rule Cons.IH [OF f Cons.prems(2)])
  finally show ?case by simp
qed

lemma in_quoted_chars:
  "rest \<noteq> [] \<Longrightarrow>
   read_records (RD IN_QUOTED_FIELD buf fl) (split_lines (join_append_data f @ rest)) acc =
   read_records (RD IN_QUOTED_FIELD (buf @ f) fl) (split_lines rest) acc"
proof (induction f arbitrary: buf)
  case Nil
  then show ?case by simp
next
  case (Cons c f)
  have ne: "join_append_data f @ rest \<noteq> []" using Cons.prems by simp
  have IH: "read_records (RD IN_QUOTED_FIELD (buf @ [c]) fl)
              (split_lines (join_append_data f @ rest)) acc =
            read_records (RD IN_QUOTED_FIELD (buf @ c # f) fl) (split_lines rest) acc"
    using Cons.IH [OF Cons.prems, of "buf @ [c]"] by simp
  consider (q) "c = quotechar" | (lf) "c = LF" | (other) "c \<noteq> quotechar" "c \<noteq> LF"
    by blast
  then show ?case
  proof cases
    case q
    have "read_records (RD IN_QUOTED_FIELD buf fl)
            (split_lines (quotechar # quotechar # (join_append_data f @ rest))) acc =
          read_records (RD IN_QUOTED_FIELD (buf @ [quotechar]) fl)
            (split_lines (join_append_data f @ rest)) acc"
      using ne by (simp add: run_char csv_chars_distinct ppc_quoted
          del: split_lines.simps read_records.simps)
    with IH q show ?thesis by simp
  next
    case lf
    have "read_records (RD IN_QUOTED_FIELD buf fl)
            (split_lines (LF # (join_append_data f @ rest))) acc =
          read_records (RD IN_QUOTED_FIELD (buf @ [LF]) fl)
            (split_lines (join_append_data f @ rest)) acc"
      using csv_chars_distinct(5) [symmetric]
      by (simp add: run_LF ppc_quoted del: split_lines.simps read_records.simps)
    with IH lf show ?thesis using csv_chars_distinct by simp
  next
    case other
    have "read_records (RD IN_QUOTED_FIELD buf fl)
            (split_lines (c # (join_append_data f @ rest))) acc =
          read_records (RD IN_QUOTED_FIELD (buf @ [c]) fl)
            (split_lines (join_append_data f @ rest)) acc"
      using ne other by (simp add: run_char ppc_quoted del: split_lines.simps read_records.simps)
    with IH other show ?thesis by simp
  qed
qed

lemma join_append_data_plain: "quotechar \<notin> set f \<Longrightarrow> join_append_data f = f"
  by (induction f) auto

lemma join_append_unquoted: "\<forall>c \<in> set f. \<not> special c \<Longrightarrow> join_append f = f"
  by (auto simp: join_append_def special_iff intro: join_append_data_plain)

lemma join_append_quoted:
  "\<exists>c \<in> set f. special c \<Longrightarrow> join_append f = quotechar # join_append_data f @ [quotechar]"
  by (simp add: join_append_def)

lemma read_field:
  assumes "rest \<noteq> []"
  shows "read_records (RD START_FIELD [] fl) (split_lines (join_append f @ rest)) acc =
         read_records (after_field f fl) (split_lines rest) acc"
proof (cases "\<exists>c \<in> set f. special c")
  case True
  have "read_records (RD START_FIELD [] fl)
          (split_lines (quotechar # (join_append_data f @ quotechar # rest))) acc =
        read_records (RD IN_QUOTED_FIELD [] fl)
          (split_lines (join_append_data f @ quotechar # rest)) acc"
    by (simp add: run_char ppc_start_field csv_chars_distinct
        del: split_lines.simps read_records.simps)
  also have "\<dots> = read_records (RD IN_QUOTED_FIELD ([] @ f) fl) (split_lines (quotechar # rest)) acc"
    by (rule in_quoted_chars) simp
  also have "\<dots> = read_records (RD QUOTE_IN_QUOTED_FIELD f fl) (split_lines rest) acc"
    using assms by (simp add: run_char ppc_quoted csv_chars_distinct
        del: split_lines.simps read_records.simps)
  finally show ?thesis using True by (simp add: join_append_quoted after_field_def)
next
  case False
  then have plain: "\<forall>c \<in> set f. \<not> special c" by simp
  show ?thesis
  proof (cases f)
    case Nil
    then show ?thesis using False by (simp add: join_append_unquoted after_field_def)
  next
    case (Cons c f')
    with plain have c: "\<not> special c" and f': "\<forall>c \<in> set f'. \<not> special c" by simp_all
    from c have "c \<noteq> LF" by (simp add: special_iff)
    then have "read_records (RD START_FIELD [] fl) (split_lines (c # (f' @ rest))) acc =
          read_records (RD IN_FIELD [c] fl) (split_lines (f' @ rest)) acc"
      using assms by (simp add: run_char ppc_start_field(2) [OF c]
          del: split_lines.simps read_records.simps)
    also have "\<dots> = read_records (RD IN_FIELD ([c] @ f') fl) (split_lines rest) acc"
      by (rule in_field_chars [OF f' assms])
    finally show ?thesis using False Cons plain
      by (simp add: join_append_unquoted after_field_def)
  qed
qed

lemma after_field_delimiter:
  "parse_process_char (after_field f fl) (Some delimiter) = Inr (RD START_FIELD [] (fl @ [f]))"
  by (simp add: after_field_def ppc_delimiter)

lemma after_field_CR:
  "parse_process_char (after_field f fl) (Some CR) = Inr (RD EAT_CRNL [] (fl @ [f]))"
  by (simp add: after_field_def ppc_CR)

lemma read_line_end:
  "parse_process_char rd (Some CR) = Inr (RD EAT_CRNL [] fl) \<Longrightarrow>
   read_records rd (split_lines (CR # LF # rest)) acc =
   read_records parse_reset (split_lines rest) (acc @ [fl])"
  by (simp add: run_char run_LF ppc_eat csv_chars_distinct
      del: split_lines.simps read_records.simps)

lemma read_fields:
  "fs \<noteq> [] \<Longrightarrow>
   read_records (RD START_FIELD [] fl) (split_lines (join_fields fs @ CR # LF # rest)) acc =
   read_records parse_reset (split_lines rest) (acc @ [fl @ fs])"
proof (induction fs arbitrary: fl rule: join_fields.induct)
  case 1
  then show ?case by simp
next
  case (2 f)
  have "read_records (RD START_FIELD [] fl) (split_lines (join_append f @ CR # LF # rest)) acc =
        read_records (after_field f fl) (split_lines (CR # LF # rest)) acc"
    by (rule read_field) simp
  also have "\<dots> = read_records parse_reset (split_lines rest) (acc @ [fl @ [f]])"
    by (rule read_line_end) (rule after_field_CR)
  finally show ?case by simp
next
  case (3 f g fs)
  let ?tail = "join_fields (g # fs) @ CR # LF # rest"
  have "read_records (RD START_FIELD [] fl)
          (split_lines (join_append f @ delimiter # ?tail)) acc =
        read_records (after_field f fl) (split_lines (delimiter # ?tail)) acc"
    by (rule read_field) simp
  also have "\<dots> = read_records (RD START_FIELD [] (fl @ [f])) (split_lines ?tail) acc"
    by (simp add: run_char after_field_delimiter csv_chars_distinct
        del: split_lines.simps read_records.simps join_fields.simps)
  also have "\<dots> = read_records parse_reset (split_lines rest) (acc @ [(fl @ [f]) @ g # fs])"
    by (rule "3.IH") simp
  finally show ?case by simp
qed

lemma join_fields_head:
  assumes "fs \<noteq> []" and "fs \<noteq> [[]]"
  shows "\<exists>c cs. join_fields fs = c # cs \<and> c \<noteq> CR \<and> c \<noteq> LF"
proof -
  from assms(1) obtain f fs' where fs: "fs = f # fs'" by (cases fs) auto
  show ?thesis
  proof (cases "\<exists>c \<in> set f. special c")
    case True
    then have "join_fields fs = quotechar # (join_append_data f @ [quotechar] @
                 (case fs' of [] \<Rightarrow> [] | g # gs \<Rightarrow> delimiter # join_fields fs'))"
      by (cases fs') (simp_all add: fs join_append_quoted)
    then show ?thesis using csv_chars_distinct by blast
  next
    case False
    then have plain: "\<forall>c \<in> set f. \<not> special c" by simp
    show ?thesis
    proof (cases f)
      case Nil
      with assms(2) fs obtain g gs where "fs' = g # gs" by (cases fs') auto
      then have "join_fields fs = delimiter # join_fields fs'"
        using Nil plain by (simp add: fs join_append_unquoted)
      then show ?thesis using csv_chars_distinct by blast
    next
      case (Cons c f')
      with plain have c: "\<not> special c" by simp
      have "join_fields fs = c # (f' @ (case fs' of [] \<Rightarrow> [] | g # gs \<Rightarrow> delimiter # join_fields fs'))"
        using plain Cons by (cases fs') (simp_all add: fs join_append_unquoted)
      then show ?thesis using c by (auto simp: special_iff)
    qed
  qed
qed

lemma read_writerow:
  "read_records parse_reset (split_lines (writerow fs @ rest)) acc =
   read_records parse_reset (split_lines rest) (acc @ [fs])"
proof -
  consider (empty) "fs = []" | (blank) "fs = [[]]" | (other) "fs \<noteq> []" "fs \<noteq> [[]]"
    by blast
  then show ?thesis
  proof cases
    case empty
    have "read_records (RD START_RECORD [] []) (split_lines (CR # LF # rest)) acc =
          read_records parse_reset (split_lines rest) (acc @ [[]])"
      by (rule read_line_end) (rule ppc_CR)
    then show ?thesis using empty by (simp add: writerow_def lineterminator_def parse_reset_def)
  next
    case blank
    have "read_records (RD START_RECORD [] []) (split_lines (quotechar # quotechar # CR # LF # rest)) acc =
          read_records (RD QUOTE_IN_QUOTED_FIELD [] []) (split_lines (CR # LF # rest)) acc"
      by (simp add: run_char ppc_start_record ppc_start_field ppc_quoted csv_chars_distinct
          del: split_lines.simps read_records.simps)
    also have "\<dots> = read_records parse_reset (split_lines rest) (acc @ [[[]]])"
      by (rule read_line_end) (simp add: ppc_CR)
    finally show ?thesis using blank by (simp add: writerow_def lineterminator_def parse_reset_def)
  next
    case other
    from join_fields_head [OF other] obtain c cs where
      jf: "join_fields fs = c # cs" and c: "c \<noteq> CR" "c \<noteq> LF"
      by blast
    have "read_records (RD START_RECORD [] []) (split_lines (c # (cs @ CR # LF # rest))) acc =
          read_records (RD START_FIELD [] []) (split_lines (c # (cs @ CR # LF # rest))) acc"
      using c by (simp add: run_char ppc_start_record del: split_lines.simps read_records.simps)
    also have "\<dots> = read_records (RD START_FIELD [] []) (split_lines (join_fields fs @ CR # LF # rest)) acc"
      by (simp add: jf)
    also have "\<dots> = read_records parse_reset (split_lines rest) (acc @ [[] @ fs])"
      by (rule read_fields [OF other(1)])
    finally show ?thesis using other
      by (simp add: writerow_def lineterminator_def parse_reset_def jf)
  qed
qed

lemma read_writerows:
  "read_records parse_reset (split_lines (writerows rows)) acc = Inr (acc @ rows)"
proof (induction rows arbitrary: acc)
  case Nil
  then show ?case by (simp add: writerows_def parse_reset_def)
next
  case (Cons r rows)
  have "read_records parse_reset (split_lines (writerow r @ writerows rows)) acc =
        read_records parse_reset (split_lines (writerows rows)) (acc @ [r])"
    by (rule read_writerow)
  then show ?case using Cons.IH [of "acc @ [r]"] by (simp add: writerows_def)
qed

lemma csv_roundtrip: "csv_reader (csv_buffer results) = Inr (HEADER # results)"
proof -
  have "csv_buffer results = writerows (HEADER # results)"
    by (simp add: csv_buffer_def writerows_def)
  then show ?thesis using read_writerows [of "HEADER # results" "[]"]
    by (simp add: csv_reader_def)
qed

lemma header_line:
  "writerow HEADER =
     ''File Name,Folder Path,View Link,Share Link,Direct Download Link,Uploaded Date,File ID''
     @ [CR, LF]"
  by code_simp

section \<open>The extraction run\<close>

lemma get_drive_service_ok:
  "get_drive_service w = (Inr service, w1) \<Longrightarrow> ui w1 = ui w"
  by (auto simp: get_drive_service_def split: option.splits sum.splits)

lemma get_drive_service_failed:
  "get_drive_service w = (Inl e, w1) \<Longrightarrow> \<not> list_ex is_download (new_events w w1)"
  by (auto simp: get_drive_service_def new_events_def split: option.splits sum.splits)

lemma run_extraction_invalid:
  "extract_folder_id (folder_url w) = None \<Longrightarrow>
   run_extraction fuel w = Some (Inr (), w\<lparr> ui := ui w @ [StError ''Invalid folder URL / ID''] \<rparr>)"
  by (simp add: run_extraction_def st_emit_def)

lemma run_extraction_scanned:
  assumes "extract_folder_id (folder_url w) = Some fid"
    and "get_drive_service w = (Inr service, w1)"
    and "scan_folder_recursive fuel service fid [] = Some (Inr results)"
  shows "run_extraction fuel w =
           Some (Inr (),
                 w1\<lparr> ui := ui w1 @
                   [StSpinner ''Scanning Drive folder recursively...'',
                    StSuccess (''Done. Found '' @ str_nat (length results) @ '' audio files.''),
                    if results = []
                    then StWarning (''No audio files found, or the folder isn'' @ [CHR 0x27]
                                    @ ''t shared with the service account.'')
                    else StDownloadButton ''Download CSV'' (csv_buffer results)
                           ''audio_links.csv'' ''text/csv''] \<rparr>)"
  using assms extract_folder_id_truthy [OF assms(1)]
  by (simp add: run_extraction_def st_emit_def Let_def)

lemma run_extraction_download_only:
  assumes "run_extraction fuel w = Some (out, w')" and "list_ex is_download (new_events w w')"
  shows "\<exists>fid service w1 results.
           extract_folder_id (folder_url w) = Some fid \<and>
           get_drive_service w = (Inr service, w1) \<and>
           scan_folder_recursive fuel service fid [] = Some (Inr results) \<and> results \<noteq> []"
proof (cases "extract_folder_id (folder_url w)")
  case None
  with assms show ?thesis by (auto simp: run_extraction_invalid new_events_def)
next
  case (Some fid)
  note fid = Some extract_folder_id_truthy [OF Some]
  obtain r w1 where g: "get_drive_service w = (r, w1)" by (cases "get_drive_service w")
  show ?thesis
  proof (cases r)
    case (Inl e)
    with assms fid g get_drive_service_failed [of w e w1] show ?thesis
      by (auto simp: run_extraction_def)
  next
    case (Inr service)
    note ui = get_drive_service_ok [OF g [unfolded Inr]]
    show ?thesis
    proof (cases "scan_folder_recursive fuel service fid []")
      case None
      with assms fid g Inr show ?thesis by (auto simp: run_extraction_def Let_def)
    next
      case (Some res)
      show ?thesis
      proof (cases res)
        case (Inl e)
        with assms fid g Inr Some ui show ?thesis
          by (auto simp: run_extraction_def Let_def st_emit_def new_events_def)
      next
        case inr: (Inr results)
        from run_extraction_scanned [OF fid(1) g [unfolded Inr] Some [unfolded inr]] assms ui
        have "results \<noteq> []" by (auto simp: new_events_def)
        with fid(1) g Inr Some inr show ?thesis by blast
      qed
    qed
  qed
qed

lemma empty_world_facts:
  "extract_folder_id (folder_url empty_world) = Some ''EMPTY''"
  "get_drive_service empty_world =
     (Inr (tree_service ''EMPTY'' []), empty_world\<lparr> cached_service := Some (tree_service ''EMPTY'' []) \<rparr>)"
  "scan_folder_recursive 1 (tree_service ''EMPTY'' []) ''EMPTY'' [] = Some (Inr [])"
proof -
  have "extract_folder_id ''https://drive.google.com/drive/folders/EMPTY'' = Some ''EMPTY''"
    by code_simp
  then show "extract_folder_id (folder_url empty_world) = Some ''EMPTY''"
    by (simp add: empty_world_def demo_world_def)
  show "get_drive_service empty_world =
     (Inr (tree_service ''EMPTY'' []), empty_world\<lparr> cached_service := Some (tree_service ''EMPTY'' []) \<rparr>)"
    by (simp add: get_drive_service_def empty_world_def demo_world_def)
  show "scan_folder_recursive 1 (tree_service ''EMPTY'' []) ''EMPTY'' [] = Some (Inr [])"
    by (simp add: tree_service_def list_children_table truthy_def files_or_empty_def)
qed

lemma str_nat_0: "str_nat 0 = ''0''"
  by code_simp

lemma demo_run_world_facts:
  "extract_folder_id (folder_url demo_run_world) = Some ''ROOT''"
  "get_drive_service demo_run_world =
     (Inr demo_service, demo_run_world\<lparr> cached_service := Some demo_service \<rparr>)"
proof -
  have "extract_folder_id ''https://drive.google.com/drive/folders/ROOT'' = Some ''ROOT''"
    by code_simp
  then show "extract_folder_id (folder_url demo_run_world) = Some ''ROOT''"
    by (simp add: demo_run_world_def demo_world_def)
  show "get_drive_service demo_run_world =
     (Inr demo_service, demo_run_world\<lparr> cached_service := Some demo_service \<rparr>)"
    by (simp add: get_drive_service_def demo_run_world_def demo_world_def)
qed

lemma str_nat_4: "str_nat 4 = ''4''"
  by code_simp

lemma demo_rows_length: "length demo_rows = 4" "demo_rows \<noteq> []"
  by (simp_all add: demo_rows_def)

text \<open>
  C6. When the folder reference is valid, the client is available and the scan returns no
  rows, \<open>run_extraction\<close> returns normally and the only things shown are the spinner, the
  success line with count 0 and the warning: no download button. Whenever a run does show
  a download button, the scan of that run returned a non-empty list of rows.
\<close>

theorem empty_result_warns_without_download:
  "(extract_folder_id (folder_url w) = Some fid \<and>
    get_drive_service w = (Inr service, w1) \<and>
    scan_folder_recursive fuel service fid [] = Some (Inr [])
      \<longrightarrow> run_extraction fuel w =
            Some (Inr (),
                  w1\<lparr> ui := ui w @
                    [StSpinner ''Scanning Drive folder recursively...'',
                     StSuccess ''Done. Found 0 audio files.'',
                     StWarning (''No audio files found, or the folder isn'' @ [CHR 0x27]
                                @ ''t shared with the service account.'')] \<rparr>))
   \<and> (run_extraction fuel w = Some (out, w') \<and> list_ex is_download (new_events w w')
        \<longrightarrow> (\<exists>fid service w1 results.
               extract_folder_id (folder_url w) = Some fid \<and>
               get_drive_service w = (Inr service, w1) \<and>
               scan_folder_recursive fuel service fid [] = Some (Inr results) \<and>
               results \<noteq> []))"
proof (intro conjI impI)
  assume a: "extract_folder_id (folder_url w) = Some fid \<and>
    get_drive_service w = (Inr service, w1) \<and>
    scan_folder_recursive fuel service fid [] = Some (Inr [])"
  then have "ui w1 = ui w" using get_drive_service_ok by blast
  with a run_extraction_scanned [of w fid service w1 fuel "[]"]
  show "run_extraction fuel w =
            Some (Inr (),
                  w1\<lparr> ui := ui w @
                    [StSpinner ''Scanning Drive folder recursively...'',
                     StSuccess ''Done. Found 0 audio files.'',
                     StWarning (''No audio files found, or the folder isn'' @ [CHR 0x27]
                                @ ''t shared with the service account.'')] \<rparr>)"
    by (simp add: str_nat_0)
next
  assume "run_extraction fuel w = Some (out, w') \<and> list_ex is_download (new_events w w')"
  then show "\<exists>fid service w1 results.
               extract_folder_id (folder_url w) = Some fid \<and>
               get_drive_service w = (Inr service, w1) \<and>
               scan_folder_recursive fuel service fid [] = Some (Inr results) \<and>
               results \<noteq> []"
    using run_extraction_download_only by blast
qed

theorem empty_result_warns_without_download_witness:
  "extract_folder_id (folder_url empty_world) = Some ''EMPTY'' \<and>
   scan_folder_recursive 1 (tree_service ''EMPTY'' []) ''EMPTY'' [] = Some (Inr []) \<and>
   run_extraction 1 empty_world =
     Some (Inr (),
           empty_world\<lparr> cached_service := Some (tree_service ''EMPTY'' []),
                        ui := [StSpinner ''Scanning Drive folder recursively...'',
                               StSuccess ''Done. Found 0 audio files.'',
                               StWarning (''No audio files found, or the folder isn'' @ [CHR 0x27]
                                          @ ''t shared with the service account.'')] \<rparr>) \<and>
   run_extraction 4 demo_run_world =
     Some (Inr (),
           demo_run_world\<lparr> cached_service := Some demo_service,
                           ui := [StSpinner ''Scanning Drive folder recursively...'',
                                  StSuccess ''Done. Found 4 audio files.'',
                                  StDownloadButton ''Download CSV'' (csv_buffer demo_rows)
                                    ''audio_links.csv'' ''text/csv''] \<rparr>) \<and>
   list_ex is_download
     (new_events demo_run_world
        (demo_run_world\<lparr> cached_service := Some demo_service,
                           ui := [StSpinner ''Scanning Drive folder recursively...'',
                                  StSuccess ''Done. Found 4 audio files.'',
                                  StDownloadButton ''Download CSV'' (csv_buffer demo_rows)
                                    ''audio_links.csv'' ''text/csv''] \<rparr>)) \<and>
   scan_folder_recursive 4 demo_service ''ROOT'' [] = Some (Inr demo_rows) \<and> demo_rows \<noteq> [] \<and>
   (\<exists>fid service w1 results.
      extract_folder_id (folder_url demo_run_world) = Some fid \<and>
      get_drive_service demo_run_world = (Inr service, w1) \<and>
      scan_folder_recursive 4 service fid [] = Some (Inr results) \<and> results \<noteq> [])"
proof -
  have e: "run_extraction 1 empty_world =
     Some (Inr (),
           empty_world\<lparr> cached_service := Some (tree_service ''EMPTY'' []),
                        ui := [StSpinner ''Scanning Drive folder recursively...'',
                               StSuccess ''Done. Found 0 audio files.'',
                               StWarning (''No audio files found, or the folder isn'' @ [CHR 0x27]
                                          @ ''t shared with the service account.'')] \<rparr>)"
    using empty_result_warns_without_download
      [of empty_world "''EMPTY''" "tree_service ''EMPTY'' []"
        "empty_world\<lparr> cached_service := Some (tree_service ''EMPTY'' []) \<rparr>" 1]
      empty_world_facts
    by (simp add: empty_world_def demo_world_def)
  have d: "run_extraction 4 demo_run_world =
     Some (Inr (),
           demo_run_world\<lparr> cached_service := Some demo_service,
                           ui := [StSpinner ''Scanning Drive folder recursively...'',
                                  StSuccess ''Done. Found 4 audio files.'',
                                  StDownloadButton ''Download CSV'' (csv_buffer demo_rows)
                                    ''audio_links.csv'' ''text/csv''] \<rparr>)"
    using run_extraction_scanned [OF demo_run_world_facts demo_scan]
    by (simp add: demo_rows_length str_nat_4 demo_run_world_def demo_world_def)
  have dl: "list_ex is_download
     (new_events demo_run_world
        (demo_run_world\<lparr> cached_service := Some demo_service,
                           ui := [StSpinner ''Scanning Drive folder recursively...'',
                                  StSuccess ''Done. Found 4 audio files.'',
                                  StDownloadButton ''Download CSV'' (csv_buffer demo_rows)
                                    ''audio_links.csv'' ''text/csv''] \<rparr>))"
    by (simp add: new_events_def demo_run_world_def demo_world_def)
  have ex: "\<exists>fid service w1 results.
      extract_folder_id (folder_url demo_run_world) = Some fid \<and>
      get_drive_service demo_run_world = (Inr service, w1) \<and>
      scan_folder_recursive 4 service fid [] = Some (Inr results) \<and> results \<noteq> []"
    using empty_result_warns_without_download
      [where w = demo_run_world and fuel = 4 and out = "Inr ()"
        and w' = "demo_run_world\<lparr> cached_service := Some demo_service,
                           ui := [StSpinner ''Scanning Drive folder recursively...'',
                                  StSuccess ''Done. Found 4 audio files.'',
                                  StDownloadButton ''Download CSV'' (csv_buffer demo_rows)
                                    ''audio_links.csv'' ''text/csv''] \<rparr>"]
      d dl
    by blast
  from e d dl ex empty_world_facts demo_scan demo_rows_length show ?thesis by simp
qed

text \<open>
  C7. When \<open>extract_folder_id\<close> finds no folder identifier in the input, \<open>run_extraction\<close>
  returns at once, for every amount of fuel and every environment: the only change to the
  world is the error message \<open>Invalid folder URL / ID\<close>. The cache of the client is as
  it was, so no client was built; the result does not depend on the service, on the
  secrets or on the fuel, so nothing was listed; and no download button is shown.
\<close>

theorem invalid_folder_reference_aborts:
  "extract_folder_id (folder_url w) = None \<Longrightarrow>
   run_extraction fuel w =
     Some (Inr (), w\<lparr> ui := ui w @ [StError ''Invalid folder URL / ID''] \<rparr>) \<and>
   cached_service (w\<lparr> ui := ui w @ [StError ''Invalid folder URL / ID''] \<rparr>) = cached_service w \<and>
   \<not> list_ex is_download
       (new_events w (w\<lparr> ui := ui w @ [StError ''Invalid folder URL / ID''] \<rparr>))"
  by (simp add: run_extraction_invalid new_events_def)

lemma invalid_world_url: "extract_folder_id (folder_url invalid_world) = None"
proof -
  have "extract_folder_id ''not a drive link'' = None" by code_simp
  then show ?thesis by (simp add: invalid_world_def)
qed

theorem invalid_folder_reference_aborts_witness:
  "extract_folder_id (folder_url invalid_world) = None \<and>
   run_extraction 0 invalid_world =
     Some (Inr (), invalid_world\<lparr> ui := [StError ''Invalid folder URL / ID''] \<rparr>) \<and>
   cached_service invalid_world = None"
  using invalid_folder_reference_aborts [OF invalid_world_url, of 0] invalid_world_url
  by (simp add: invalid_world_def)

text \<open>
  C5. The CSV text of a result list starts with the header line
  \<open>File Name,Folder Path,View Link,Share Link,Direct Download Link,Uploaded Date,File ID\<close>,
  and reading the text back with the CSV reader yields the seven header fields followed by
  the rows, each with its fields unchanged. For a non-empty result list this text is the
  data of the download button that \<open>run_extraction\<close> shows.
\<close>

theorem csv_header_and_round_trip:
  "(\<exists>rest. csv_buffer results =
      ''File Name,Folder Path,View Link,Share Link,Direct Download Link,Uploaded Date,File ID''
      @ [CR, LF] @ rest)
   \<and> csv_reader (csv_buffer results) =
       Inr ([''File Name'', ''Folder Path'', ''View Link'', ''Share Link'',
             ''Direct Download Link'', ''Uploaded Date'', ''File ID''] # results)
   \<and> (extract_folder_id (folder_url w) = Some fid \<and>
       get_drive_service w = (Inr service, w1) \<and>
       scan_folder_recursive fuel service fid [] = Some (Inr results) \<and> results \<noteq> []
         \<longrightarrow> run_extraction fuel w =
               Some (Inr (),
                     w1\<lparr> ui := ui w @
                       [StSpinner ''Scanning Drive folder recursively...'',
                        StSuccess (''Done. Found '' @ str_nat (length results) @ '' audio files.''),
                        StDownloadButton ''Download CSV'' (csv_buffer results)
                          ''audio_links.csv'' ''text/csv''] \<rparr>))"
proof (intro conjI impI)
  show "\<exists>rest. csv_buffer results =
      ''File Name,Folder Path,View Link,Share Link,Direct Download Link,Uploaded Date,File ID''
      @ [CR, LF] @ rest"
    unfolding csv_buffer_def header_line by (intro exI [of _ "writerows results"]) simp
  show "csv_reader (csv_buffer results) =
       Inr ([''File Name'', ''Folder Path'', ''View Link'', ''Share Link'',
             ''Direct Download Link'', ''Uploaded Date'', ''File ID''] # results)"
    using csv_roundtrip [of results] by (simp add: HEADER_def)
  assume a: "extract_folder_id (folder_url w) = Some fid \<and>
       get_drive_service w = (Inr service, w1) \<and>
       scan_folder_recursive fuel service fid [] = Some (Inr results) \<and> results \<noteq> []"
  then have "ui w1 = ui w" using get_drive_service_ok by blast
  with a run_extraction_scanned [of w fid service w1 fuel results]
  show "run_extraction fuel w =
               Some (Inr (),
                     w1\<lparr> ui := ui w @
                       [StSpinner ''Scanning Drive folder recursively...'',
                        StSuccess (''Done. Found '' @ str_nat (length results) @ '' audio files.''),
                        StDownloadButton ''Download CSV'' (csv_buffer results)
                          ''audio_links.csv'' ''text/csv''] \<rparr>)"
    by simp
qed

theorem csv_header_and_round_trip_witness:
  "extract_folder_id (folder_url demo_run_world) = Some ''ROOT'' \<and>
   scan_folder_recursive 4 demo_service ''ROOT'' [] = Some (Inr demo_rows) \<and>
   demo_rows \<noteq> [] \<and>
   run_extraction 4 demo_run_world =
     Some (Inr (),
           demo_run_world\<lparr> cached_service := Some demo_service,
                           ui := [StSpinner ''Scanning Drive folder recursively...'',
                                  StSuccess ''Done. Found 4 audio files.'',
                                  StDownloadButton ''Download CSV'' (csv_buffer demo_rows)
                                    ''audio_links.csv'' ''text/csv''] \<rparr>) \<and>
   csv_reader (csv_buffer demo_rows) =
     Inr ([''File Name'', ''Folder Path'', ''View Link'', ''Share Link'',
           ''Direct Download Link'', ''Uploaded Date'', ''File ID''] # demo_rows)"
  using csv_header_and_round_trip
      [of demo_rows demo_run_world "''ROOT''" demo_service
        "demo_run_world\<lparr> cached_service := Some demo_service \<rparr>" 4]
    demo_run_world_facts demo_scan demo_rows_length
  by (simp add: str_nat_4 demo_run_world_def demo_world_def)

end
